theory Spec2Isabelle
  imports Main "HOL-Library.Word" "HOL-Library.Multiset"
begin

section \<open>Error codes and compile-time policies\<close>

text \<open>
  The header \<^verbatim>\<open>blazecsv.hpp\<close> is embedded function by function. Bytes are \<^typ>\<open>char\<close>,
  a byte range is a \<^typ>\<open>string\<close>, and a \<^verbatim>\<open>const char*\<close> into the mapped file is an
  offset (\<^typ>\<open>nat\<close>) into the buffer it points into. Template parameters become
  ordinary arguments.
\<close>

datatype ErrorCode =
  Ok | InvalidInteger | InvalidFloat | InvalidBool | InvalidDate | InvalidDateTime
  | NullValue | OutOfRange | ColumnCountMismatch | EndOfFile | FileOpenError

record ErrorInfo =
  code :: ErrorCode
  line :: "32 word"
  column :: "8 word"

definition ErrorInfo_default :: ErrorInfo where
  "ErrorInfo_default = \<lparr>code = Ok, line = 0, column = 0\<rparr>"

definition ok :: "ErrorInfo \<Rightarrow> bool" where
  "ok e = (code e = Ok)"

record ErrorPolicy =
  enabled :: bool
  track_line :: bool
  track_column :: bool

definition NoErrorCheck :: ErrorPolicy where
  "NoErrorCheck = \<lparr>enabled = False, track_line = False, track_column = False\<rparr>"

definition ErrorCheckBasic :: ErrorPolicy where
  "ErrorCheckBasic = \<lparr>enabled = True, track_line = True, track_column = False\<rparr>"

definition ErrorCheckFull :: ErrorPolicy where
  "ErrorCheckFull = \<lparr>enabled = True, track_line = True, track_column = True\<rparr>"

section \<open>Null value detection\<close>

record NullPolicy =
  empty_is_null :: bool
  na_is_null :: bool
  null_is_null :: bool
  none_is_null :: bool
  dash_is_null :: bool

text \<open>
  \<^verbatim>\<open>NullPolicy::check(begin, end)\<close>; the argument is the byte range \<^verbatim>\<open>[begin, end)\<close>.
  \<^verbatim>\<open>memcmp(begin, lit, n) == 0\<close> compares the first \<open>n\<close> bytes, \<^verbatim>\<open>*begin\<close> is the
  first byte. The branches come in the order of the source.
\<close>

definition check :: "NullPolicy \<Rightarrow> string \<Rightarrow> bool" where
  "check P s =
    (let len = length s in
     if empty_is_null P \<and> len = 0 then True
     else if null_is_null P \<and> len = 4 \<and> (take 4 s = ''null'' \<or> take 4 s = ''NULL'') then True
     else if none_is_null P \<and> len = 4 \<and>
             (take 4 s = ''None'' \<or> take 4 s = ''none'' \<or> take 4 s = ''NONE'') then True
     else if na_is_null P \<and>
             ((len = 2 \<and> take 2 s = ''NA'') \<or>
              (len = 3 \<and> (take 3 s = ''N/A'' \<or> take 3 s = ''n/a''))) then True
     else if dash_is_null P \<and> len = 1 \<and> s ! 0 = CHR ''-'' then True
     else False)"

text \<open>The presets, with the template arguments of the source in the source's order
  (EmptyIsNull, NAIsNull, NullIsNull, NoneIsNull, DashIsNull).\<close>

definition NullStrict :: NullPolicy where
  "NullStrict = \<lparr>empty_is_null = True, na_is_null = False, null_is_null = False,
                  none_is_null = False, dash_is_null = False\<rparr>"

definition NullStandard :: NullPolicy where
  "NullStandard = \<lparr>empty_is_null = True, na_is_null = True, null_is_null = True,
                    none_is_null = False, dash_is_null = False\<rparr>"

definition NullLenient :: NullPolicy where
  "NullLenient = \<lparr>empty_is_null = True, na_is_null = True, null_is_null = True,
                   none_is_null = True, dash_is_null = True\<rparr>"

definition NoNullCheck :: NullPolicy where
  "NoNullCheck = \<lparr>empty_is_null = False, na_is_null = False, null_is_null = False,
                   none_is_null = False, dash_is_null = False\<rparr>"

text \<open>\<^verbatim>\<open>FieldRef::is_null<NullPol>()\<close> on the bytes of the field.\<close>

definition is_null :: "NullPolicy \<Rightarrow> string \<Rightarrow> bool" where
  "is_null NullPol s = check NullPol s"

section \<open>Scanners\<close>

text \<open>
  The build selects one of three bodies for each scanner (\<^verbatim>\<open>BLAZECSV_SIMD_NEON\<close>,
  \<^verbatim>\<open>BLAZECSV_SIMD_SSE2\<close>, or neither); the selection is the argument \<open>sm\<close>.
  A scanner reads \<^verbatim>\<open>data[i]\<close>, that is byte \<open>data + i\<close> of the buffer \<open>buf\<close>.
\<close>

datatype simd = Scalar | NEON | SSE2

definition is_field_end :: "char \<Rightarrow> char \<Rightarrow> bool" where
  "is_field_end delim c = (c = delim \<or> c = CHR 0x0A \<or> c = CHR 0x0D)"

definition is_newline :: "char \<Rightarrow> bool" where
  "is_newline c = (c = CHR 0x0A)"

text \<open>The scalar loop \<^verbatim>\<open>for (; i < len; ++i) if (match(data[i])) return i; return len;\<close>\<close>

function scalar_loop :: "(char \<Rightarrow> bool) \<Rightarrow> string \<Rightarrow> nat \<Rightarrow> nat \<Rightarrow> nat \<Rightarrow> nat" where
  "scalar_loop P buf data len i =
    (if i < len then (if P (buf ! (data + i)) then i else scalar_loop P buf data len (i + 1))
     else len)"
  by pat_completeness auto
termination
  by (relation "measure (\<lambda>(P, buf, data, len, i). len - i)") auto

declare scalar_loop.simps [simp del]

text \<open>A 16-byte load and lane-wise comparison: lane \<open>j\<close> is all-ones (\<open>True\<close>) when byte
  \<open>i + j\<close> matches and all-zeros (\<open>False\<close>) otherwise.\<close>

definition cmp_lanes :: "(char \<Rightarrow> bool) \<Rightarrow> string \<Rightarrow> nat \<Rightarrow> nat \<Rightarrow> bool list" where
  "cmp_lanes P buf data i = map (\<lambda>j. P (buf ! (data + i + j))) [0..<16]"

text \<open>\<^verbatim>\<open>_mm_movemask_epi8\<close>: bit \<open>j\<close> of the mask is the top bit of lane \<open>j\<close>.\<close>

fun movemask :: "bool list \<Rightarrow> nat" where
  "movemask [] = 0"
| "movemask (b # bs) = (if b then 1 else 0) + 2 * movemask bs"

text \<open>\<^verbatim>\<open>blazecsv_ctz\<close>: the number of trailing zero bits. The source calls it under
  \<^verbatim>\<open>if (mask)\<close> only; on 0, where the builtin is undefined, the model answers 0.\<close>

function blazecsv_ctz :: "nat \<Rightarrow> nat" where
  "blazecsv_ctz msk =
    (if msk = 0 then 0 else if odd msk then 0 else 1 + blazecsv_ctz (msk div 2))"
  by pat_completeness auto
termination
  by (relation "measure (\<lambda>msk. msk)") auto

declare blazecsv_ctz.simps [simp del]

text \<open>The NEON body's inner loop \<^verbatim>\<open>for (j = 0; j < 16; ++j) if (match(data[i + j])) return i + j;\<close>
  (\<open>None\<close>: the loop ended without returning).\<close>

function neon_first :: "(char \<Rightarrow> bool) \<Rightarrow> string \<Rightarrow> nat \<Rightarrow> nat \<Rightarrow> nat \<Rightarrow> nat option" where
  "neon_first P buf data i j =
    (if j < 16 then (if P (buf ! (data + i + j)) then Some (i + j) else neon_first P buf data i (j + 1))
     else None)"
  by pat_completeness auto
termination
  by (relation "measure (\<lambda>(P, buf, data, i, j). 16 - j)") auto

declare neon_first.simps [simp del]

function neon_loop :: "(char \<Rightarrow> bool) \<Rightarrow> string \<Rightarrow> nat \<Rightarrow> nat \<Rightarrow> nat \<Rightarrow> nat" where
  "neon_loop P buf data len i =
    (if i + 16 \<le> len then
       (if list_ex (\<lambda>b. b) (cmp_lanes P buf data i) then
          (case neon_first P buf data i 0 of
             Some r \<Rightarrow> r
           | None \<Rightarrow> neon_loop P buf data len (i + 16))
        else neon_loop P buf data len (i + 16))
     else scalar_loop P buf data len i)"
  by pat_completeness auto
termination
  by (relation "measure (\<lambda>(P, buf, data, len, i). len - i)") auto

declare neon_loop.simps [simp del]

function sse2_loop :: "(char \<Rightarrow> bool) \<Rightarrow> string \<Rightarrow> nat \<Rightarrow> nat \<Rightarrow> nat \<Rightarrow> nat" where
  "sse2_loop P buf data len i =
    (if i + 16 \<le> len then
       (let msk = movemask (cmp_lanes P buf data i) in
        if msk \<noteq> 0 then i + blazecsv_ctz msk
        else sse2_loop P buf data len (i + 16))
     else scalar_loop P buf data len i)"
  by pat_completeness auto
termination
  by (relation "measure (\<lambda>(P, buf, data, len, i). len - i)") auto

declare sse2_loop.simps [simp del]

definition scan :: "simd \<Rightarrow> (char \<Rightarrow> bool) \<Rightarrow> string \<Rightarrow> nat \<Rightarrow> nat \<Rightarrow> nat" where
  "scan sm P buf data len =
    (case sm of
       NEON \<Rightarrow> if len \<ge> 16 then neon_loop P buf data len 0 else scalar_loop P buf data len 0
     | SSE2 \<Rightarrow> if len \<ge> 16 then sse2_loop P buf data len 0 else scalar_loop P buf data len 0
     | Scalar \<Rightarrow> scalar_loop P buf data len 0)"

definition find_field_end :: "simd \<Rightarrow> string \<Rightarrow> nat \<Rightarrow> nat \<Rightarrow> char \<Rightarrow> nat" where
  "find_field_end sm buf data len delim = scan sm (is_field_end delim) buf data len"

definition find_newline :: "simd \<Rightarrow> string \<Rightarrow> nat \<Rightarrow> nat \<Rightarrow> nat" where
  "find_newline sm buf data len = scan sm is_newline buf data len"

section \<open>Field value extraction\<close>

text \<open>
  \<^verbatim>\<open>std::from_chars\<close> for integers is the C++ standard library's, not this repository's.
  It is modelled as the standard specifies it: the subject is the longest prefix of
  \<^verbatim>\<open>[first, last)\<close> of the form of an optional minus sign (for signed types only, and never a
  plus sign) followed by decimal digits, with no leading white space. With no digit the
  result is \<^verbatim>\<open>{first, errc::invalid_argument}\<close>; when the value of the subject does not
  fit the type it is \<^verbatim>\<open>{ptr, errc::result_out_of_range}\<close> with \<open>ptr\<close> after the subject;
  in both cases \<open>value\<close> is unmodified. Otherwise \<open>value\<close> is set and \<open>ec\<close> is \<^verbatim>\<open>errc{}\<close>.
  The pointer is an offset from \<open>first\<close>.
\<close>

record int_type =
  is_signed :: bool
  bits :: nat

definition T_min :: "int_type \<Rightarrow> int" where
  "T_min T = (if is_signed T then - (2 ^ (bits T - 1)) else 0)"

definition T_max :: "int_type \<Rightarrow> int" where
  "T_max T = (if is_signed T then 2 ^ (bits T - 1) - 1 else 2 ^ bits T - 1)"

definition int32 :: int_type where
  "int32 = \<lparr>is_signed = True, bits = 32\<rparr>"

definition uint32 :: int_type where
  "uint32 = \<lparr>is_signed = False, bits = 32\<rparr>"

datatype errc = errc_none | invalid_argument | result_out_of_range

definition is_digit :: "char \<Rightarrow> bool" where
  "is_digit c = (48 \<le> (of_char c :: nat) \<and> (of_char c :: nat) \<le> 57)"

definition digit_value :: "char \<Rightarrow> int" where
  "digit_value c = int (of_char c) - 48"

fun digits_value :: "string \<Rightarrow> int \<Rightarrow> int" where
  "digits_value [] acc = acc"
| "digits_value (c # cs) acc = digits_value cs (10 * acc + digit_value c)"

definition from_chars :: "int_type \<Rightarrow> string \<Rightarrow> int \<Rightarrow> (nat \<times> errc) \<times> int" where
  "from_chars T s v =
    (let neg = (is_signed T \<and> s \<noteq> [] \<and> hd s = CHR ''-'');
         body = (if neg then tl s else s);
         ds = takeWhile is_digit body;
         ptr = (if neg then 1 else 0) + length ds;
         x = (if neg then - digits_value ds 0 else digits_value ds 0)
     in if ds = [] then ((0, invalid_argument), v)
        else if x < T_min T \<or> T_max T < x then ((ptr, result_out_of_range), v)
        else ((ptr, errc_none), x))"

text \<open>\<^verbatim>\<open>FieldRef::parse<T>()\<close> for an integral \<open>T\<close> other than \<open>bool\<close>, on the bytes of
  the field.\<close>

definition parse_int :: "int_type \<Rightarrow> string \<Rightarrow> ErrorCode + int" where
  "parse_int T s =
    (let ((ptr, ec), v) = from_chars T s 0 in
     if ec = errc_none \<and> ptr = length s then Inr v
     else Inl (if ec = result_out_of_range then OutOfRange else InvalidInteger))"

text \<open>
  \<^verbatim>\<open>std::chrono::year_month_day\<close>, as the standard defines it: a year holds a
  \<^verbatim>\<open>short\<close>, a month and a day an \<^verbatim>\<open>unsigned char\<close>; \<^verbatim>\<open>ok()\<close> holds when the year is in
  \<open>[-32767, 32767]\<close>, the month in \<open>[1, 12]\<close> and the day in \<open>[1, last day of the month]\<close>.
\<close>

record year_month_day =
  ymd_year :: int
  ymd_month :: nat
  ymd_day :: nat

definition chrono_year :: "int \<Rightarrow> int" where
  "chrono_year y = (y + 32768) mod 65536 - 32768"

text \<open>\<^verbatim>\<open>std::chrono::month{static_cast<unsigned>(m)}\<close> (and the same for a day): the
  \<open>int\<close> wraps to 32 bits, then to 8.\<close>

definition chrono_u8 :: "int \<Rightarrow> nat" where
  "chrono_u8 m = nat (m mod 4294967296) mod 256"

definition is_leap :: "int \<Rightarrow> bool" where
  "is_leap y = (y mod 4 = 0 \<and> (y mod 100 \<noteq> 0 \<or> y mod 400 = 0))"

definition last_day :: "int \<Rightarrow> nat \<Rightarrow> nat" where
  "last_day y m =
    (if m = 2 then (if is_leap y then 29 else 28)
     else if m = 4 \<or> m = 6 \<or> m = 9 \<or> m = 11 then 30 else 31)"

definition ymd_ok :: "year_month_day \<Rightarrow> bool" where
  "ymd_ok d =
    (- 32767 \<le> ymd_year d \<and> ymd_year d \<le> 32767 \<and>
     1 \<le> ymd_month d \<and> ymd_month d \<le> 12 \<and>
     1 \<le> ymd_day d \<and> ymd_day d \<le> 31 \<and>
     ymd_day d \<le> last_day (ymd_year d) (ymd_month d))"

text \<open>\<^verbatim>\<open>FieldRef::parse_date()\<close> on the bytes of the field. The three locals are
  uninitialised in the source and read only after \<open>from_chars\<close> has set them.\<close>

definition parse_date :: "string \<Rightarrow> ErrorCode + year_month_day" where
  "parse_date s =
    (if length s < 10 then Inl InvalidDate
     else
       let ((p1, e1), year) = from_chars int32 (take 4 s) 0 in
       if e1 \<noteq> errc_none \<or> s ! 4 \<noteq> CHR ''-'' then Inl InvalidDate
       else
         let ((p2, e2), month) = from_chars int32 (take 2 (drop 5 s)) 0 in
         if e2 \<noteq> errc_none \<or> s ! 7 \<noteq> CHR ''-'' then Inl InvalidDate
         else
           let ((p3, e3), day) = from_chars int32 (take 2 (drop 8 s)) 0 in
           if e3 \<noteq> errc_none then Inl InvalidDate
           else
             let ymd = \<lparr>ymd_year = chrono_year year, ymd_month = chrono_u8 month,
                        ymd_day = chrono_u8 day\<rparr>
             in if \<not> ymd_ok ymd then Inl InvalidDate else Inr ymd)"

text \<open>
  The words of the specification, for comparison with the code: the base-10 value of a digit
  string, read from its last digit, and calendar validity (month 1 to 12, day valid for the
  month and the year, leap years included).
\<close>

fun base10_rev :: "string \<Rightarrow> int" where
  "base10_rev [] = 0"
| "base10_rev (c # cs) = digit_value c + 10 * base10_rev cs"

definition base10 :: "string \<Rightarrow> int" where
  "base10 ds = base10_rev (rev ds)"

definition days_in_month :: "int \<Rightarrow> nat \<Rightarrow> nat" where
  "days_in_month y m =
    [31, if (4 dvd y \<and> \<not> 100 dvd y) \<or> 400 dvd y then 29 else 28,
     31, 30, 31, 30, 31, 31, 30, 31, 30, 31] ! (m - 1)"

definition valid_date :: "int \<Rightarrow> nat \<Rightarrow> nat \<Rightarrow> bool" where
  "valid_date y m d = (1 \<le> m \<and> m \<le> 12 \<and> 1 \<le> d \<and> d \<le> days_in_month y m)"

text \<open>An integer numeral of type \<open>T\<close> as the code accepts it (a minus sign for signed types
  only, then at least one digit), its value, and whether a value fits the type.\<close>

definition int_numeral :: "int_type \<Rightarrow> string \<Rightarrow> string \<Rightarrow> bool" where
  "int_numeral T sign ds =
    ((sign = [] \<or> (is_signed T \<and> sign = ''-'')) \<and> ds \<noteq> [] \<and> list_all is_digit ds)"

definition numeral_value :: "string \<Rightarrow> string \<Rightarrow> int" where
  "numeral_value sign ds = (if sign = [] then base10 ds else - base10 ds)"

definition fits :: "int_type \<Rightarrow> int \<Rightarrow> bool" where
  "fits T v = (T_min T \<le> v \<and> v \<le> T_max T)"

text \<open>Names for the parts \<open>from_chars\<close> computes: the sign it accepts, the digits of the
  subject and the bytes after it.\<close>

definition fc_neg :: "int_type \<Rightarrow> string \<Rightarrow> bool" where
  "fc_neg T s = (is_signed T \<and> s \<noteq> [] \<and> hd s = CHR ''-'')"
definition fc_body :: "int_type \<Rightarrow> string \<Rightarrow> string" where
  "fc_body T s = (if fc_neg T s then tl s else s)"
definition fc_sign :: "int_type \<Rightarrow> string \<Rightarrow> string" where
  "fc_sign T s = (if fc_neg T s then ''-'' else [])"
definition fc_ds :: "int_type \<Rightarrow> string \<Rightarrow> string" where
  "fc_ds T s = takeWhile is_digit (fc_body T s)"
definition fc_rest :: "int_type \<Rightarrow> string \<Rightarrow> string" where
  "fc_rest T s = dropWhile is_digit (fc_body T s)"

text \<open>Claim C5 in the words of the specification: the whole slice is an integer with an
  optional plus or minus sign; the value when it fits, \<open>OutOfRange\<close> when the numeral is
  well formed and does not fit, \<open>InvalidInteger\<close> in every other case.\<close>

definition spec_parse_int :: "int_type \<Rightarrow> string \<Rightarrow> ErrorCode + int" where
  "spec_parse_int T s =
    (let has_sign = (s \<noteq> [] \<and> (hd s = CHR ''+'' \<or> hd s = CHR ''-''));
         ds = (if has_sign then tl s else s);
         v = (if has_sign \<and> hd s = CHR ''-'' then - base10 ds else base10 ds)
     in if ds \<noteq> [] \<and> list_all is_digit ds
        then (if fits T v then Inr v else Inl OutOfRange)
        else Inl InvalidInteger)"

section \<open>Mapped source and reader state\<close>

text \<open>
  What the operating system answers when \<^verbatim>\<open>MmapSource(path)\<close> opens the path:
  \<^verbatim>\<open>open\<close> or \<^verbatim>\<open>fstat\<close> fails (\<open>OpenFailed\<close>); \<^verbatim>\<open>fstat\<close> gives the size and \<^verbatim>\<open>mmap\<close> fails
  (\<open>MapFailed size\<close>); or the file is read through its mapping (\<open>Mapped bytes\<close>).
\<close>

datatype file_result = OpenFailed | MapFailed nat | Mapped string

text \<open>
  \<open>mapped\<close> holds the bytes at \<^verbatim>\<open>data_\<close> (none when \<^verbatim>\<open>data_\<close> is null), \<open>map_size\<close> is
  \<^verbatim>\<open>size_\<close> and \<open>map_valid\<close> is \<^verbatim>\<open>valid()\<close>, that is \<^verbatim>\<open>data_ != nullptr\<close>; \<^verbatim>\<open>data()\<close> is offset 0.
  The constructor sets \<^verbatim>\<open>size_\<close> from \<^verbatim>\<open>fstat\<close> before it maps, and maps only when the
  size is positive: an empty file leaves \<^verbatim>\<open>data_\<close> null with size 0, and a failed
  \<^verbatim>\<open>mmap\<close> leaves \<^verbatim>\<open>data_\<close> null with the size of the file.
\<close>

record MmapSource =
  mapped :: string
  map_size :: nat
  map_valid :: bool

definition MmapSource_open :: "file_result \<Rightarrow> MmapSource" where
  "MmapSource_open file =
    (case file of
       OpenFailed \<Rightarrow> \<lparr>mapped = [], map_size = 0, map_valid = False\<rparr>
     | MapFailed n \<Rightarrow> \<lparr>mapped = [], map_size = n, map_valid = False\<rparr>
     | Mapped bytes \<Rightarrow>
         \<lparr>mapped = bytes, map_size = length bytes, map_valid = (bytes \<noteq> [])\<rparr>)"

text \<open>The state in which \<^verbatim>\<open>data_\<close> is null and \<^verbatim>\<open>size_\<close> is not 0. A reader built on it has
  a null cursor and a range that is not empty, and its loops would read through the null
  pointer.\<close>

definition map_failed :: "file_result \<Rightarrow> bool" where
  "map_failed file = (case file of MapFailed n \<Rightarrow> 0 < n | _ \<Rightarrow> False)"

text \<open>A \<^verbatim>\<open>std::string_view\<close>: the data pointer (\<open>None\<close> for the null pointer of a
  default-constructed view) and the size.\<close>

record string_view =
  sv_data :: "nat option"
  sv_size :: nat

definition string_view_default :: string_view where
  "string_view_default = \<lparr>sv_data = None, sv_size = 0\<rparr>"

text \<open>A slot of the local arrays \<^verbatim>\<open>starts\<close> and \<^verbatim>\<open>ends\<close>: \<open>None\<close> while the slot has never
  been assigned (the arrays are not initialised), \<open>Some p\<close> once pointer \<open>p\<close> is stored.\<close>

type_synonym slot = "nat option"

record FieldRef =
  f_begin :: slot
  f_end :: slot

text \<open>The members of \<^verbatim>\<open>Reader\<close> (\<^verbatim>\<open>source_\<close>, \<^verbatim>\<open>current_\<close>, \<^verbatim>\<open>end_\<close>, ...), of
  \<^verbatim>\<open>ParallelReader\<close> and of \<^verbatim>\<open>FieldRef\<close> keep their names, with a prefix for the class
  in place of the trailing underscore.\<close>

record Reader =
  r_source :: MmapSource
  r_current :: nat
  r_end :: nat
  r_column_names :: "string_view list"
  r_header_parsed :: bool
  r_last_error :: ErrorInfo
  r_line_number :: "32 word"

section \<open>Record iterator\<close>

text \<open>The header's field loop
  \<^verbatim>\<open>while (col < Columns && ptr < effective_end) { ... column_names_[col] = ...; ++col; ... }\<close>\<close>

function header_loop ::
  "simd \<Rightarrow> nat \<Rightarrow> char \<Rightarrow> string \<Rightarrow> nat \<Rightarrow> nat \<times> nat \<times> string_view list
    \<Rightarrow> nat \<times> nat \<times> string_view list" where
  "header_loop sm N D buf effective_end (ptr, col, names) =
    (if col < N \<and> ptr < effective_end then
       (let start = ptr;
            field_len = find_field_end sm buf ptr (effective_end - ptr) D;
            ptr1 = ptr + field_len;
            names1 = names[col := \<lparr>sv_data = Some start, sv_size = ptr1 - start\<rparr>];
            col1 = col + 1;
            ptr2 = (if ptr1 < effective_end \<and> buf ! ptr1 = D then ptr1 + 1 else ptr1)
        in header_loop sm N D buf effective_end (ptr2, col1, names1))
     else (ptr, col, names))"
  by pat_completeness auto
termination
  by (relation "measure (\<lambda>(sm, N, D, buf, effective_end, ptr, col, names). N - col)") auto

declare header_loop.simps [simp del]

text \<open>\<^verbatim>\<open>Reader::parse_header()\<close>\<close>

definition parse_header :: "simd \<Rightarrow> nat \<Rightarrow> char \<Rightarrow> ErrorPolicy \<Rightarrow> Reader \<Rightarrow> Reader" where
  "parse_header sm N D EP r =
    (if r_current r \<ge> r_end r then r
     else
       let buf = mapped (r_source r);
           ln = (if track_line EP then r_line_number r + 1 else r_line_number r);
           line_len = find_newline sm buf (r_current r) (r_end r - r_current r);
           line_end = r_current r + line_len;
           effective_end =
             (if line_end > r_current r \<and> buf ! (line_end - 1) = CHR 0x0D then line_end - 1
              else line_end);
           (ptr, col, names) =
             header_loop sm N D buf effective_end (r_current r, 0, r_column_names r)
       in r\<lparr>r_current := (if line_end < r_end r then line_end + 1 else r_end r),
            r_column_names := names, r_header_parsed := True, r_line_number := ln\<rparr>)"

text \<open>The constructor \<^verbatim>\<open>Reader(filepath, skip_header)\<close>; the file system's answer for the
  path is the argument \<open>file\<close>.\<close>

definition Reader_init ::
  "simd \<Rightarrow> nat \<Rightarrow> char \<Rightarrow> ErrorPolicy \<Rightarrow> file_result \<Rightarrow> bool \<Rightarrow> Reader" where
  "Reader_init sm N D EP file skip_header =
    (let src = MmapSource_open file;
         r = \<lparr>r_source = src, r_current = 0, r_end = 0 + map_size src,
              r_column_names = replicate N string_view_default, r_header_parsed = False,
              r_last_error = ErrorInfo_default, r_line_number = 0\<rparr>
     in if skip_header \<and> map_valid src then parse_header sm N D EP r else r)"

definition column_name :: "nat \<Rightarrow> Reader \<Rightarrow> nat \<Rightarrow> string_view" where
  "column_name N r idx = (if idx < N then r_column_names r ! idx else string_view_default)"

definition last_error :: "ErrorPolicy \<Rightarrow> Reader \<Rightarrow> ErrorInfo" where
  "last_error EP r = (if enabled EP then r_last_error r else ErrorInfo_default)"

definition has_error :: "ErrorPolicy \<Rightarrow> Reader \<Rightarrow> bool" where
  "has_error EP r = (if enabled EP then \<not> ok (r_last_error r) else False)"

text \<open>The field loop of a data row,
  \<^verbatim>\<open>while (col < Columns && ptr < effective_end) { starts[col] = ptr; ... }\<close>,
  which \<open>for_each_raw\<close>, \<open>for_each_until\<close> and \<open>parse_chunk\<close> each contain.\<close>

function field_loop ::
  "simd \<Rightarrow> nat \<Rightarrow> char \<Rightarrow> string \<Rightarrow> nat \<Rightarrow> nat \<times> nat \<times> slot list \<times> slot list
    \<Rightarrow> nat \<times> nat \<times> slot list \<times> slot list" where
  "field_loop sm N D buf effective_end (ptr, col, starts, ends) =
    (if col < N \<and> ptr < effective_end then
       (let starts1 = starts[col := Some ptr];
            field_len = find_field_end sm buf ptr (effective_end - ptr) D;
            ptr1 = ptr + field_len;
            ends1 = ends[col := Some ptr1];
            col1 = col + 1;
            ptr2 = (if ptr1 < effective_end \<and> buf ! ptr1 = D then ptr1 + 1 else ptr1)
        in field_loop sm N D buf effective_end (ptr2, col1, starts1, ends1))
     else (ptr, col, starts, ends))"
  by pat_completeness auto
termination
  by (relation "measure (\<lambda>(sm, N, D, buf, effective_end, ptr, col, starts, ends). N - col)") auto

declare field_loop.simps [simp del]

text \<open>
  The part of a loop iteration that the three loops share word for word, from
  \<^verbatim>\<open>find_newline\<close> to \<^verbatim>\<open>current = (line_end < end) ? line_end + 1 : end\<close>: the line's end,
  the stripped carriage return, the field loop, the trailing empty field and the new cursor.
  The result is the new cursor, \<open>col\<close> and the two arrays.
\<close>

definition parse_row ::
  "simd \<Rightarrow> nat \<Rightarrow> char \<Rightarrow> string \<Rightarrow> nat \<Rightarrow> nat \<Rightarrow> slot list \<Rightarrow> slot list
    \<Rightarrow> nat \<times> nat \<times> slot list \<times> slot list" where
  "parse_row sm N D buf current end starts ends =
    (let remaining = end - current;
         line_len = find_newline sm buf current remaining;
         line_end = current + line_len;
         effective_end =
           (if line_end > current \<and> buf ! (line_end - 1) = CHR 0x0D then line_end - 1
            else line_end);
         (ptr, col, starts1, ends1) =
           field_loop sm N D buf effective_end (current, 0, starts, ends);
         trailing_empty =
           (col > 0 \<and> col < N \<and> the (ends1 ! (col - 1)) < effective_end \<and>
            buf ! the (ends1 ! (col - 1)) = D);
         starts2 = (if trailing_empty then starts1[col := Some ptr] else starts1);
         ends2 = (if trailing_empty then ends1[col := Some ptr] else ends1);
         col2 = (if trailing_empty then col + 1 else col)
     in ((if line_end < end then line_end + 1 else end), col2, starts2, ends2))"

text \<open>The empty-line skips at the head of an iteration: the cursor after a line feed, or
  after a carriage return and the line feed that may follow it.\<close>

definition skip_cr :: "string \<Rightarrow> nat \<Rightarrow> nat \<Rightarrow> nat" where
  "skip_cr buf current end =
    (let c1 = current + 1 in if c1 < end \<and> buf ! c1 = CHR 0x0A then c1 + 1 else c1)"

text \<open>
  \<^verbatim>\<open>Reader::for_each_raw\<close>. The loop state is the reader, \<open>count\<close>, the two local arrays and
  the calls made to the callback so far, each with the arrays as the callback sees them.
  \<open>raw_step\<close> is the body of \<^verbatim>\<open>while (current_ < end_)\<close>.
\<close>

type_synonym raw_state = "Reader \<times> nat \<times> slot list \<times> slot list \<times> (slot list \<times> slot list) list"

definition raw_step :: "simd \<Rightarrow> nat \<Rightarrow> char \<Rightarrow> ErrorPolicy \<Rightarrow> raw_state \<Rightarrow> raw_state" where
  "raw_step sm N D EP st =
    (case st of (r, cnt, starts, ends, calls) \<Rightarrow>
      let buf = mapped (r_source r);
          r1 = (if track_line EP then r\<lparr>r_line_number := r_line_number r + 1\<rparr> else r)
      in if buf ! r_current r1 = CHR 0x0A then
           (r1\<lparr>r_current := r_current r1 + 1\<rparr>, cnt, starts, ends, calls)
         else if buf ! r_current r1 = CHR 0x0D then
           (r1\<lparr>r_current := skip_cr buf (r_current r1) (r_end r1)\<rparr>, cnt, starts, ends, calls)
         else
           (case parse_row sm N D buf (r_current r1) (r_end r1) starts ends of
             (current1, col, starts1, ends1) \<Rightarrow>
               let r2 = r1\<lparr>r_current := current1\<rparr> in
               if enabled EP \<and> col \<noteq> N then
                 (r2\<lparr>r_last_error :=
                      \<lparr>code = ColumnCountMismatch,
                       line = (if track_line EP then r_line_number r2 else 0),
                       column = of_nat col\<rparr>\<rparr>,
                  cnt, starts1, ends1, calls)
               else (r2, cnt + 1, starts1, ends1, calls @ [(starts1, ends1)])))"

lemma parse_row_cursor:
  "current < end \<Longrightarrow> parse_row sm N D buf current end starts ends = (c, col, s, e) \<Longrightarrow>
   current < c \<and> c \<le> end"
  unfolding parse_row_def Let_def by (auto split: prod.splits if_splits)

lemma skip_cr_cursor:
  "current < end \<Longrightarrow> current < skip_cr buf current end \<and> skip_cr buf current end \<le> end"
  unfolding skip_cr_def Let_def by auto

lemma raw_step_cursor:
  assumes "r_current (fst st) < r_end (fst st)"
  shows "r_end (fst (raw_step sm N D EP st)) = r_end (fst st) \<and>
    r_source (fst (raw_step sm N D EP st)) = r_source (fst st) \<and>
    r_current (fst st) < r_current (fst (raw_step sm N D EP st)) \<and>
    r_current (fst (raw_step sm N D EP st)) \<le> r_end (fst st)"
proof -
  obtain r cnt starts ends calls where st: "st = (r, cnt, starts, ends, calls)"
    by (cases st) auto
  obtain c col s e where pr:
    "parse_row sm N D (mapped (r_source r)) (r_current r) (r_end r) starts ends = (c, col, s, e)"
    by (cases "parse_row sm N D (mapped (r_source r)) (r_current r) (r_end r) starts ends") auto
  from assms st have lt: "r_current r < r_end r" by simp
  from parse_row_cursor[OF lt pr] skip_cr_cursor[OF lt, of "mapped (r_source r)"] lt pr
  show ?thesis
    unfolding st raw_step_def Let_def by (simp split: if_splits)
qed

function for_each_raw_loop ::
  "simd \<Rightarrow> nat \<Rightarrow> char \<Rightarrow> ErrorPolicy \<Rightarrow> raw_state \<Rightarrow> raw_state" where
  "for_each_raw_loop sm N D EP st =
    (if r_current (fst st) < r_end (fst st)
     then for_each_raw_loop sm N D EP (raw_step sm N D EP st)
     else st)"
  by pat_completeness auto
termination
proof (relation "measure (\<lambda>(sm, N, D, EP, st). r_end (fst st) - r_current (fst st))")
  show "wf (measure (\<lambda>(sm, N, D, EP, st). r_end (fst st) - r_current (fst st)))" by simp
next
  fix sm N D EP and st :: raw_state
  assume "r_current (fst st) < r_end (fst st)"
  from raw_step_cursor[OF this, of sm N D EP]
  show "((sm, N, D, EP, raw_step sm N D EP st), (sm, N, D, EP, st))
    \<in> measure (\<lambda>(sm, N, D, EP, st). r_end (fst st) - r_current (fst st))"
    by simp arith
qed

declare for_each_raw_loop.simps [simp del]

text \<open>\<^verbatim>\<open>for_each_raw\<close>: the returned cnt, the calls made to the callback in order, and the
  reader after the call.\<close>

definition for_each_raw ::
  "simd \<Rightarrow> nat \<Rightarrow> char \<Rightarrow> ErrorPolicy \<Rightarrow> Reader
    \<Rightarrow> nat \<times> (slot list \<times> slot list) list \<times> Reader" where
  "for_each_raw sm N D EP r =
    (case for_each_raw_loop sm N D EP (r, 0, replicate N None, replicate N None, []) of
      (r1, cnt, starts, ends, calls) \<Rightarrow> (cnt, calls, r1))"

text \<open>\<^verbatim>\<open>fields[i] = FieldRef(starts[i], ends[i])\<close> for \<open>i < Columns\<close>\<close>

definition make_fields :: "nat \<Rightarrow> slot list \<Rightarrow> slot list \<Rightarrow> FieldRef list" where
  "make_fields N starts ends = map (\<lambda>i. \<lparr>f_begin = starts ! i, f_end = ends ! i\<rparr>) [0..<N]"

text \<open>\<^verbatim>\<open>Reader::for_each\<close> wraps the callback and calls \<open>for_each_raw\<close>.\<close>

definition for_each ::
  "simd \<Rightarrow> nat \<Rightarrow> char \<Rightarrow> ErrorPolicy \<Rightarrow> Reader \<Rightarrow> nat \<times> FieldRef list list \<times> Reader" where
  "for_each sm N D EP r =
    (case for_each_raw sm N D EP r of
      (cnt, calls, r1) \<Rightarrow> (cnt, map (\<lambda>(starts, ends). make_fields N starts ends) calls, r1))"

text \<open>
  \<^verbatim>\<open>Reader::for_each_until\<close>. The callback is a function of its own state \<open>u\<close> and the
  fields; it returns whether to go on and its new state. \<open>until_step\<close> is the loop body; its
  second component is \<open>False\<close> when the body leaves the loop by \<^verbatim>\<open>break\<close>.
\<close>

type_synonym 'u until_state =
  "Reader \<times> nat \<times> slot list \<times> slot list \<times> FieldRef list list \<times> 'u"

definition until_step ::
  "simd \<Rightarrow> nat \<Rightarrow> char \<Rightarrow> ErrorPolicy \<Rightarrow> ('u \<Rightarrow> FieldRef list \<Rightarrow> bool \<times> 'u)
    \<Rightarrow> 'u until_state \<Rightarrow> 'u until_state \<times> bool" where
  "until_step sm N D EP cb st =
    (case st of (r, cnt, starts, ends, calls, u) \<Rightarrow>
      let buf = mapped (r_source r);
          r1 = (if track_line EP then r\<lparr>r_line_number := r_line_number r + 1\<rparr> else r)
      in if buf ! r_current r1 = CHR 0x0A then
           ((r1\<lparr>r_current := r_current r1 + 1\<rparr>, cnt, starts, ends, calls, u), True)
         else if buf ! r_current r1 = CHR 0x0D then
           ((r1\<lparr>r_current := skip_cr buf (r_current r1) (r_end r1)\<rparr>, cnt, starts, ends, calls, u),
            True)
         else
           (case parse_row sm N D buf (r_current r1) (r_end r1) starts ends of
             (current1, col, starts1, ends1) \<Rightarrow>
               let r2 = r1\<lparr>r_current := current1\<rparr> in
               if enabled EP \<and> col \<noteq> N then ((r2, cnt, starts1, ends1, calls, u), True)
               else
                 (let fields = make_fields N starts1 ends1;
                      (go, u1) = cb u fields
                  in ((r2, cnt + 1, starts1, ends1, calls @ [fields], u1), go))))"

lemma until_step_cursor:
  assumes "r_current (fst st) < r_end (fst st)"
  shows "r_end (fst (fst (until_step sm N D EP cb st))) = r_end (fst st) \<and>
    r_source (fst (fst (until_step sm N D EP cb st))) = r_source (fst st) \<and>
    r_current (fst st) < r_current (fst (fst (until_step sm N D EP cb st))) \<and>
    r_current (fst (fst (until_step sm N D EP cb st))) \<le> r_end (fst st)"
proof -
  obtain r cnt starts ends calls u where st: "st = (r, cnt, starts, ends, calls, u)"
    by (cases st) auto
  obtain c col s e where pr:
    "parse_row sm N D (mapped (r_source r)) (r_current r) (r_end r) starts ends = (c, col, s, e)"
    by (cases "parse_row sm N D (mapped (r_source r)) (r_current r) (r_end r) starts ends") auto
  from assms st have lt: "r_current r < r_end r" by simp
  from parse_row_cursor[OF lt pr] skip_cr_cursor[OF lt, of "mapped (r_source r)"] lt pr
  show ?thesis
    unfolding st until_step_def Let_def by (simp split: if_splits prod.splits)
qed

function for_each_until_loop ::
  "simd \<Rightarrow> nat \<Rightarrow> char \<Rightarrow> ErrorPolicy \<Rightarrow> ('u \<Rightarrow> FieldRef list \<Rightarrow> bool \<times> 'u)
    \<Rightarrow> 'u until_state \<Rightarrow> 'u until_state" where
  "for_each_until_loop sm N D EP cb st =
    (if r_current (fst st) < r_end (fst st)
     then (if snd (until_step sm N D EP cb st)
           then for_each_until_loop sm N D EP cb (fst (until_step sm N D EP cb st))
           else fst (until_step sm N D EP cb st))
     else st)"
  by pat_completeness auto
termination
proof (relation "measure (\<lambda>(sm, N, D, EP, cb, st). r_end (fst st) - r_current (fst st))")
  show "wf (measure (\<lambda>(sm, N, D, EP, cb, st). r_end (fst st) - r_current (fst st)))" by simp
next
  fix sm N D EP and cb :: "'u \<Rightarrow> FieldRef list \<Rightarrow> bool \<times> 'u" and st :: "'u until_state"
  assume "r_current (fst st) < r_end (fst st)"
  from until_step_cursor[OF this, of sm N D EP cb]
  show "((sm, N, D, EP, cb, fst (until_step sm N D EP cb st)), (sm, N, D, EP, cb, st))
    \<in> measure (\<lambda>(sm, N, D, EP, cb, st). r_end (fst st) - r_current (fst st))"
    by simp arith
qed

declare for_each_until_loop.simps [simp del]

text \<open>\<^verbatim>\<open>for_each_until\<close>: the returned cnt, the calls made, the callback's final state and
  the reader after the call.\<close>

definition for_each_until ::
  "simd \<Rightarrow> nat \<Rightarrow> char \<Rightarrow> ErrorPolicy \<Rightarrow> ('u \<Rightarrow> FieldRef list \<Rightarrow> bool \<times> 'u) \<Rightarrow> 'u \<Rightarrow> Reader
    \<Rightarrow> nat \<times> FieldRef list list \<times> 'u \<times> Reader" where
  "for_each_until sm N D EP cb u r =
    (case for_each_until_loop sm N D EP cb (r, 0, replicate N None, replicate N None, [], u) of
      (r1, cnt, starts, ends, calls, u1) \<Rightarrow> (cnt, calls, u1, r1))"

section \<open>Parallel reader\<close>

record ParallelReader =
  p_source :: MmapSource
  p_data :: nat
  p_size :: nat
  p_num_threads :: nat
  p_column_names :: "string_view list"

text \<open>The constructor \<^verbatim>\<open>ParallelReader(filepath, num_threads, skip_header)\<close>\<close>

definition ParallelReader_init ::
  "simd \<Rightarrow> nat \<Rightarrow> char \<Rightarrow> file_result \<Rightarrow> nat \<Rightarrow> bool \<Rightarrow> ParallelReader" where
  "ParallelReader_init sm N D file num_threads skip_header =
    (let src = MmapSource_open file;
         buf = mapped src;
         p = \<lparr>p_source = src, p_data = 0, p_size = map_size src, p_num_threads = num_threads,
              p_column_names = replicate N string_view_default\<rparr>
     in if skip_header \<and> map_valid src then
          (let nl = find_newline sm buf (p_data p) (p_size p);
               line_end = p_data p + nl;
               (ptr, col, names) = header_loop sm N D buf line_end (p_data p, 0, p_column_names p);
               data1 = (if line_end < p_data p + p_size p then line_end + 1 else p_data p + p_size p)
           in p\<lparr>p_data := data1, p_size := (0 + map_size src) - data1, p_column_names := names\<rparr>)
        else p)"

text \<open>\<^verbatim>\<open>ParallelReader::parse_chunk\<close>: \<open>chunk_step\<close> is the body of \<^verbatim>\<open>while (current < end)\<close>;
  the state is the cursor, \<open>count\<close>, the two local arrays and the calls made so far.\<close>

type_synonym chunk_state = "nat \<times> nat \<times> slot list \<times> slot list \<times> FieldRef list list"

definition chunk_step :: "simd \<Rightarrow> nat \<Rightarrow> char \<Rightarrow> string \<Rightarrow> nat \<Rightarrow> chunk_state \<Rightarrow> chunk_state" where
  "chunk_step sm N D buf end st =
    (case st of (current, cnt, starts, ends, calls) \<Rightarrow>
      if buf ! current = CHR 0x0A then (current + 1, cnt, starts, ends, calls)
      else if buf ! current = CHR 0x0D then (skip_cr buf current end, cnt, starts, ends, calls)
      else
        (case parse_row sm N D buf current end starts ends of
          (current1, col, starts1, ends1) \<Rightarrow>
            if col = N
            then (current1, cnt + 1, starts1, ends1, calls @ [make_fields N starts1 ends1])
            else (current1, cnt, starts1, ends1, calls)))"

lemma chunk_step_cursor:
  assumes "fst st < end"
  shows "fst st < fst (chunk_step sm N D buf end st) \<and> fst (chunk_step sm N D buf end st) \<le> end"
proof -
  obtain current cnt starts ends calls where st: "st = (current, cnt, starts, ends, calls)"
    by (cases st) auto
  obtain c col s e where pr: "parse_row sm N D buf current end starts ends = (c, col, s, e)"
    by (cases "parse_row sm N D buf current end starts ends") auto
  from assms st have lt: "current < end" by simp
  from parse_row_cursor[OF lt pr] skip_cr_cursor[OF lt, of buf] lt pr
  show ?thesis
    unfolding st chunk_step_def by (simp split: if_splits)
qed

function parse_chunk_loop ::
  "simd \<Rightarrow> nat \<Rightarrow> char \<Rightarrow> string \<Rightarrow> nat \<Rightarrow> chunk_state \<Rightarrow> chunk_state" where
  "parse_chunk_loop sm N D buf end st =
    (if fst st < end then parse_chunk_loop sm N D buf end (chunk_step sm N D buf end st) else st)"
  by pat_completeness auto
termination
proof (relation "measure (\<lambda>(sm, N, D, buf, end, st). end - fst st)")
  show "wf (measure (\<lambda>(sm, N, D, buf, end, st). end - fst st))" by simp
next
  fix sm N D buf "end" and st :: chunk_state
  assume "fst st < end"
  from chunk_step_cursor[OF this, of sm N D buf]
  show "((sm, N, D, buf, end, chunk_step sm N D buf end st), (sm, N, D, buf, end, st))
    \<in> measure (\<lambda>(sm, N, D, buf, end, st). end - fst st)"
    by simp arith
qed

declare parse_chunk_loop.simps [simp del]

definition parse_chunk ::
  "simd \<Rightarrow> nat \<Rightarrow> char \<Rightarrow> string \<Rightarrow> nat \<Rightarrow> nat \<Rightarrow> nat \<times> FieldRef list list" where
  "parse_chunk sm N D buf start end =
    (case parse_chunk_loop sm N D buf end (start, 0, replicate N None, replicate N None, []) of
      (current, cnt, starts, ends, calls) \<Rightarrow> (cnt, calls))"

text \<open>The chunk boundary loop of \<open>for_each_parallel\<close>,
  \<^verbatim>\<open>for (i = 0; i < num_threads_ - 1 && chunk_start < data_ + size_; ++i)\<close>;
  \<open>dend\<close> is \<^verbatim>\<open>data_ + size_\<close>. The source divides by \<open>p_num_threads\<close> and subtracts 1 from
  it: it is meant for \<open>p_num_threads \<ge> 1\<close>.\<close>

definition next_boundary :: "simd \<Rightarrow> string \<Rightarrow> nat \<Rightarrow> nat \<Rightarrow> nat \<Rightarrow> nat" where
  "next_boundary sm buf dend chunk_size chunk_start =
    (let approx_end = chunk_start + chunk_size in
     if approx_end \<ge> dend then dend
     else
       (let remaining = dend - approx_end;
            nl = find_newline sm buf approx_end remaining;
            approx_end1 = approx_end + nl
        in if approx_end1 < dend then approx_end1 + 1 else approx_end1))"

function chunk_loop ::
  "simd \<Rightarrow> string \<Rightarrow> nat \<Rightarrow> nat \<Rightarrow> nat \<Rightarrow> nat \<times> nat \<times> (nat \<times> nat) list
    \<Rightarrow> nat \<times> nat \<times> (nat \<times> nat) list" where
  "chunk_loop sm buf dend num_threads chunk_size (i, chunk_start, chunks) =
    (if i < num_threads - 1 \<and> chunk_start < dend then
       (let approx_end = next_boundary sm buf dend chunk_size chunk_start
        in chunk_loop sm buf dend num_threads chunk_size
             (i + 1, approx_end, chunks @ [(chunk_start, approx_end)]))
     else (i, chunk_start, chunks))"
  by pat_completeness auto
termination
  by (relation "measure (\<lambda>(sm, buf, dend, num_threads, chunk_size, i, chunk_start, chunks).
        num_threads - 1 - i)") auto

declare chunk_loop.simps [simp del]

text \<open>
  \<^verbatim>\<open>ParallelReader::for_each_parallel\<close>. Each chunk is parsed by a thread of its own, which
  stores its \<open>parse_chunk\<close> cnt; the calls of one worker are in that worker's order, and
  the order between workers is not fixed. The result is the returned total and, per worker,
  the calls it made.
\<close>

definition for_each_parallel ::
  "simd \<Rightarrow> nat \<Rightarrow> char \<Rightarrow> ParallelReader \<Rightarrow> nat \<times> FieldRef list list list" where
  "for_each_parallel sm N D p =
    (if p_size p = 0 then (0, [])
     else
       let buf = mapped (p_source p);
           dend = p_data p + p_size p;
           chunk_size = p_size p div p_num_threads p;
           (i, chunk_start, chunks) =
             chunk_loop sm buf dend (p_num_threads p) chunk_size (0, p_data p, []);
           chunks1 = (if chunk_start < dend then chunks @ [(chunk_start, dend)] else chunks);
           results = map (\<lambda>(s, e). parse_chunk sm N D buf s e) chunks1;
           total = foldl (\<lambda>t res. t + fst res) 0 results
       in (total, map snd results))"

text \<open>
  For the comparison of the parallel with the single-threaded reader: what one iteration of
  \<open>parse_chunk\<close>'s loop does when started on fresh arrays (the new cursor and the calls it
  makes), the calls \<open>parse_chunk\<close> makes on a range, and those of a list of chunks.
\<close>

definition step_out :: "simd \<Rightarrow> nat \<Rightarrow> char \<Rightarrow> string \<Rightarrow> nat \<Rightarrow> nat \<Rightarrow> nat \<times> FieldRef list list" where
  "step_out sm N D buf en cur =
    (case chunk_step sm N D buf en (cur, 0, replicate N None, replicate N None, []) of
      (cur1, cnt, starts, ends, calls) \<Rightarrow> (cur1, calls))"

definition rows :: "simd \<Rightarrow> nat \<Rightarrow> char \<Rightarrow> string \<Rightarrow> nat \<Rightarrow> nat \<Rightarrow> FieldRef list list" where
  "rows sm N D buf cur en = snd (parse_chunk sm N D buf cur en)"

definition recs ::
  "simd \<Rightarrow> nat \<Rightarrow> char \<Rightarrow> string \<Rightarrow> (nat \<times> nat) list \<Rightarrow> FieldRef list list" where
  "recs sm N D buf chs = concat (map (\<lambda>(s, e). rows sm N D buf s e) chs)"

lemma step_out_cursor:
  assumes "cur < en"
  shows "cur < fst (step_out sm N D buf en cur) \<and> fst (step_out sm N D buf en cur) \<le> en"
proof -
  have "fst (cur, 0 :: nat, replicate N (None :: slot), replicate N (None :: slot),
      [] :: FieldRef list list) < en"
    using assms by simp
  from chunk_step_cursor[OF this, of sm N D buf] show ?thesis
    by (auto simp: step_out_def split: prod.splits)
qed

text \<open>
  "Every row has \<open>N\<close> fields", on the range from \<open>cur\<close> to \<open>en\<close>: at each cursor position the
  loop reaches, the line is empty (it begins with a line feed or a carriage return, and the
  loop skips it) or the row parser leaves its field loop with \<^verbatim>\<open>col == Columns\<close>.
\<close>

definition row_full :: "simd \<Rightarrow> nat \<Rightarrow> char \<Rightarrow> string \<Rightarrow> nat \<Rightarrow> nat \<Rightarrow> bool" where
  "row_full sm N D buf en cur =
    (buf ! cur = CHR 0x0A \<or> buf ! cur = CHR 0x0D \<or>
     fst (snd (parse_row sm N D buf cur en (replicate N None) (replicate N None))) = N)"

function all_rows_full :: "simd \<Rightarrow> nat \<Rightarrow> char \<Rightarrow> string \<Rightarrow> nat \<Rightarrow> nat \<Rightarrow> bool" where
  "all_rows_full sm N D buf cur en =
    (if cur < en
     then row_full sm N D buf en cur \<and>
          all_rows_full sm N D buf (fst (step_out sm N D buf en cur)) en
     else True)"
  by pat_completeness auto
termination
proof (relation "measure (\<lambda>(sm, N, D, buf, cur, en). en - cur)", goal_cases)
  case 1
  show ?case by simp
next
  case (2 sm N D buf cur en)
  from step_out_cursor[OF 2(1), of sm N D buf] 2(1) show ?case by simp arith
qed

declare all_rows_full.simps [simp del]

text \<open>The scanner contract: \<open>r\<close> is the least index below \<open>len\<close> whose byte matches,
  or \<open>len\<close> when there is none.\<close>

definition first_match :: "(char \<Rightarrow> bool) \<Rightarrow> string \<Rightarrow> nat \<Rightarrow> nat \<Rightarrow> nat \<Rightarrow> bool" where
  "first_match P buf data len r =
    (r \<le> len \<and> (r < len \<longrightarrow> P (buf ! (data + r))) \<and> (\<forall>j<r. \<not> P (buf ! (data + j))))"

section \<open>Null vocabulary\<close>

lemma take_lit: "length t = n \<Longrightarrow> (length s = n \<and> (take n s = t \<or> Q)) = (s = t \<or> (length s = n \<and> Q))"
  by auto

lemma take_lit1: "length t = n \<Longrightarrow> (length s = n \<and> take n s = t) = (s = t)"
  by auto

lemma dash_lit: "(length s = 1 \<and> s ! 0 = c) = (s = [c])"
  by (cases s) auto

lemma or_shuffle:
  "(p1 \<and> q1 \<or> p2 \<and> q2 \<or> p3 \<and> q3 \<or> p4 \<and> q4 \<or> p5 \<and> q5 \<or> False) =
   (p1 \<and> q1 \<or> p4 \<and> q4 \<or> p2 \<and> q2 \<or> p3 \<and> q3 \<or> p5 \<and> q5)"
  by blast

lemma check_vocab:
  "check P s =
    ((empty_is_null P \<and> s = []) \<or>
     (na_is_null P \<and> (s = ''NA'' \<or> s = ''N/A'' \<or> s = ''n/a'')) \<or>
     (null_is_null P \<and> (s = ''null'' \<or> s = ''NULL'')) \<or>
     (none_is_null P \<and> (s = ''None'' \<or> s = ''none'' \<or> s = ''NONE'')) \<or>
     (dash_is_null P \<and> s = ''-''))"
proof -
  have n4: "(length s = 4 \<and> (take 4 s = ''null'' \<or> take 4 s = ''NULL'')) = (s = ''null'' \<or> s = ''NULL'')"
    by (simp add: take_lit take_lit1)
  have o4: "(length s = 4 \<and> (take 4 s = ''None'' \<or> take 4 s = ''none'' \<or> take 4 s = ''NONE''))
      = (s = ''None'' \<or> s = ''none'' \<or> s = ''NONE'')"
    by (simp add: take_lit take_lit1)
  have a2: "(length s = 2 \<and> take 2 s = ''NA'') = (s = ''NA'')"
    by (simp add: take_lit1)
  have a3: "(length s = 3 \<and> (take 3 s = ''N/A'' \<or> take 3 s = ''n/a'')) = (s = ''N/A'' \<or> s = ''n/a'')"
    by (simp add: take_lit take_lit1)
  have d: "(length s = 1 \<and> s ! 0 = CHR ''-'') = (s = ''-'')"
    by (rule dash_lit)
  have e: "(length s = 0) = (s = [])" by simp
  have c: "\<And>a b. (if a then True else b) = (a \<or> b)" by simp
  show ?thesis
    unfolding check_def Let_def n4 o4 a2 a3 d e c by (rule or_shuffle)
qed

text \<open>
  Claim C7. For every null policy \<open>P\<close> and every field slice \<open>s\<close>, \<open>is_null\<close> is true
  exactly on the case-sensitive vocabulary of the toggles that \<open>P\<close> enables: the empty slice
  (empty), "NA", "N/A", "n/a" (NA), "null", "NULL" (null), "None", "none", "NONE" (none) and
  "-" (dash); it is false on every other slice.
\<close>

theorem is_null_vocabulary:
  "is_null P s =
    ((empty_is_null P \<and> s = []) \<or>
     (na_is_null P \<and> (s = ''NA'' \<or> s = ''N/A'' \<or> s = ''n/a'')) \<or>
     (null_is_null P \<and> (s = ''null'' \<or> s = ''NULL'')) \<or>
     (none_is_null P \<and> (s = ''None'' \<or> s = ''none'' \<or> s = ''NONE'')) \<or>
     (dash_is_null P \<and> s = ''-''))"
  unfolding is_null_def by (rule check_vocab)

theorem is_null_vocabulary_witness:
  "is_null NullLenient ''n/a'' \<and> is_null NullLenient ''NONE'' \<and> is_null NullLenient ''-'' \<and>
   \<not> is_null NullLenient ''Null'' \<and> \<not> is_null NoNullCheck []"
  using is_null_vocabulary[of NullLenient "''n/a''"] is_null_vocabulary[of NullLenient "''NONE''"]
    is_null_vocabulary[of NullLenient "''-''"] is_null_vocabulary[of NullLenient "''Null''"]
    is_null_vocabulary[of NoNullCheck "[]"]
  by (simp add: NullLenient_def NoNullCheck_def)

text \<open>
  Claim C8, as the specification states it, says that the Standard preset does not treat the
  null family as null, so that \<open>is_null\<close> is false on "null" and "NULL". The preset is
  \<^verbatim>\<open>NullPolicy<true, true, true, false, false>\<close>, whose third argument is the null toggle:
  the statement is false on both slices.
\<close>

theorem standard_null_family_counterexample:
  "\<not> (\<not> is_null NullStandard ''null'' \<and> \<not> is_null NullStandard ''NULL'')"
  by (simp add: is_null_def check_def NullStandard_def)

text \<open>
  Claim C8, amended. The Standard preset treats the empty slice, the NA family and the null
  family as null, and treats neither the none family nor the dash as null: \<open>is_null\<close> with
  the Standard policy is true exactly on the empty slice, "NA", "N/A", "n/a", "null" and "NULL".
\<close>

theorem standard_preset_vocabulary:
  "is_null NullStandard s =
    (s = [] \<or> s = ''NA'' \<or> s = ''N/A'' \<or> s = ''n/a'' \<or> s = ''null'' \<or> s = ''NULL'')"
proof -
  have "check NullStandard s =
    (s = [] \<or> (s = ''NA'' \<or> s = ''N/A'' \<or> s = ''n/a'') \<or> (s = ''null'' \<or> s = ''NULL''))"
    unfolding check_vocab by (simp add: NullStandard_def)
  then show ?thesis by (simp add: is_null_def)
qed

theorem standard_preset_vocabulary_witness:
  "is_null NullStandard ''null'' \<and> is_null NullStandard ''NULL'' \<and> is_null NullStandard ''NA'' \<and>
   \<not> is_null NullStandard ''None'' \<and> \<not> is_null NullStandard ''-''"
  using standard_preset_vocabulary[of "''null''"] standard_preset_vocabulary[of "''NULL''"]
    standard_preset_vocabulary[of "''NA''"] standard_preset_vocabulary[of "''None''"]
    standard_preset_vocabulary[of "''-''"]
  by simp

section \<open>Scanner correctness\<close>

lemma first_match_unique:
  "first_match P buf data len r \<Longrightarrow> first_match P buf data len r' \<Longrightarrow> r = r'"
  unfolding first_match_def by (metis linorder_neqE_nat order_less_le_trans)

lemma scalar_loop_first:
  "i \<le> len \<Longrightarrow> \<forall>j<i. \<not> P (buf ! (data + j)) \<Longrightarrow>
   first_match P buf data len (scalar_loop P buf data len i)"
proof (induction P buf data len i rule: scalar_loop.induct)
  case (1 P buf data len i)
  show ?case
  proof (cases "i < len")
    case False
    with "1.prems" show ?thesis
      by (subst scalar_loop.simps) (simp add: first_match_def)
  next
    case True
    show ?thesis
    proof (cases "P (buf ! (data + i))")
      case True
      with \<open>i < len\<close> "1.prems" show ?thesis
        by (subst scalar_loop.simps) (simp add: first_match_def)
    next
      case False
      have "\<forall>j<i + 1. \<not> P (buf ! (data + j))"
        using False "1.prems"(2) by (auto simp: less_Suc_eq)
      with "1.IH"[OF True False] True have
        "first_match P buf data len (scalar_loop P buf data len (i + 1))" by simp
      with True False show ?thesis by (subst scalar_loop.simps) simp
    qed
  qed
qed

lemma neon_first_Some:
  "neon_first P buf data i j = Some r \<Longrightarrow> \<forall>k<j. \<not> P (buf ! (data + i + k)) \<Longrightarrow>
   \<exists>k<16. r = i + k \<and> P (buf ! (data + i + k)) \<and> (\<forall>k'<k. \<not> P (buf ! (data + i + k')))"
proof (induction P buf data i j rule: neon_first.induct)
  case (1 P buf data i j)
  show ?case
  proof (cases "j < 16")
    case False
    with "1.prems" show ?thesis by (simp add: neon_first.simps[of P buf data i j])
  next
    case True
    show ?thesis
    proof (cases "P (buf ! (data + i + j))")
      case True
      with \<open>j < 16\<close> "1.prems"(1) have "r = i + j"
        by (simp add: neon_first.simps[of P buf data i j])
      with True \<open>j < 16\<close> "1.prems"(2) show ?thesis by blast
    next
      case False
      have "\<forall>k<j + 1. \<not> P (buf ! (data + i + k))"
        using False "1.prems"(2) by (auto simp: less_Suc_eq)
      moreover have "neon_first P buf data i (j + 1) = Some r"
        using "1.prems"(1) True False by (simp add: neon_first.simps[of P buf data i j])
      ultimately show ?thesis using "1.IH"[OF True False] by blast
    qed
  qed
qed

lemma neon_first_None:
  "neon_first P buf data i j = None \<Longrightarrow> \<forall>k<16. j \<le> k \<longrightarrow> \<not> P (buf ! (data + i + k))"
proof (induction P buf data i j rule: neon_first.induct)
  case (1 P buf data i j)
  show ?case
  proof (cases "j < 16")
    case False
    then show ?thesis by simp
  next
    case True
    with "1.prems" have np: "\<not> P (buf ! (data + i + j))" and
      rest: "neon_first P buf data i (j + 1) = None"
      by (auto simp: neon_first.simps[of P buf data i j] split: if_splits)
    from "1.IH"[OF True np rest] have "\<forall>k<16. j + 1 \<le> k \<longrightarrow> \<not> P (buf ! (data + i + k))" .
    with np show ?thesis
      by (auto simp: le_less Suc_le_eq)
  qed
qed

lemma cmp_lanes_length: "length (cmp_lanes P buf data i) = 16"
  by (simp only: cmp_lanes_def length_map length_upt)

lemma cmp_lanes_nth: "k < 16 \<Longrightarrow> cmp_lanes P buf data i ! k = P (buf ! (data + i + k))"
proof -
  assume k: "k < 16"
  then have "k < length [0..<16]" by (simp only: length_upt)
  then have "map (\<lambda>j. P (buf ! (data + i + j))) [0..<16] ! k = P (buf ! (data + i + ([0..<16] ! k)))"
    by (rule nth_map)
  moreover have "[0..<16] ! k = k" using nth_upt[of 0 k 16] k by (simp only: add_0)
  ultimately show ?thesis by (simp only: cmp_lanes_def)
qed

lemma cmp_lanes_ex: "(\<exists>b\<in>set (cmp_lanes P buf data i). b) = (\<exists>k<16. P (buf ! (data + i + k)))"
proof
  assume "\<exists>b\<in>set (cmp_lanes P buf data i). b"
  then obtain k where "k < length (cmp_lanes P buf data i)" "cmp_lanes P buf data i ! k"
    by (metis in_set_conv_nth)
  then show "\<exists>k<16. P (buf ! (data + i + k))"
    using cmp_lanes_nth[of k P buf data i] by (auto simp only: cmp_lanes_length)
next
  assume "\<exists>k<16. P (buf ! (data + i + k))"
  then obtain k where k: "k < 16" "P (buf ! (data + i + k))" by blast
  then have "cmp_lanes P buf data i ! k" by (simp only: cmp_lanes_nth)
  moreover have "k < length (cmp_lanes P buf data i)" using k by (simp only: cmp_lanes_length)
  ultimately show "\<exists>b\<in>set (cmp_lanes P buf data i). b" using nth_mem by blast
qed

lemma neon_loop_first:
  "i \<le> len \<Longrightarrow> \<forall>j<i. \<not> P (buf ! (data + j)) \<Longrightarrow>
   first_match P buf data len (neon_loop P buf data len i)"
proof (induction P buf data len i rule: neon_loop.induct)
  case (1 P buf data len i)
  show ?case
  proof (cases "i + 16 \<le> len")
    case False
    then have "neon_loop P buf data len i = scalar_loop P buf data len i"
      by (subst neon_loop.simps) simp
    with "1.prems" show ?thesis by (simp add: scalar_loop_first)
  next
    case True
    note blk = True
    have skip: "first_match P buf data len (neon_loop P buf data len (i + 16))"
      if none: "\<forall>k<16. \<not> P (buf ! (data + i + k))"
        and ih: "i + 16 \<le> len \<Longrightarrow> \<forall>j<i + 16. \<not> P (buf ! (data + j)) \<Longrightarrow>
          first_match P buf data len (neon_loop P buf data len (i + 16))"
    proof -
      have "\<forall>j<i + 16. \<not> P (buf ! (data + j))"
      proof (intro allI impI)
        fix j assume "j < i + 16"
        show "\<not> P (buf ! (data + j))"
        proof (cases "j < i")
          case True with "1.prems"(2) show ?thesis by simp
        next
          case False
          then have "j - i < 16" "data + i + (j - i) = data + j" using \<open>j < i + 16\<close> by auto
          with none show ?thesis by metis
        qed
      qed
      with ih blk show ?thesis by simp
    qed
    show ?thesis
    proof (cases "list_ex (\<lambda>b. b) (cmp_lanes P buf data i)")
      case False
      then have none: "\<forall>k<16. \<not> P (buf ! (data + i + k))"
        using cmp_lanes_ex[of P buf data i] by (simp only: list_ex_iff) blast
      have "first_match P buf data len (neon_loop P buf data len (i + 16))"
        using skip[OF none] "1.IH"(2)[OF blk False] by blast
      with blk False show ?thesis by (subst neon_loop.simps) simp
    next
      case True
      show ?thesis
      proof (cases "neon_first P buf data i 0")
        case None
        from neon_first_None[OF None] have none: "\<forall>k<16. \<not> P (buf ! (data + i + k))" by simp
        have "first_match P buf data len (neon_loop P buf data len (i + 16))"
          using skip[OF none] "1.IH"(1)[OF blk True None] by blast
        with blk True None show ?thesis by (subst neon_loop.simps) simp
      next
        case (Some r)
        from neon_first_Some[OF Some] obtain k where k: "k < 16" "r = i + k"
          "P (buf ! (data + i + k))" "\<forall>k'<k. \<not> P (buf ! (data + i + k'))" by auto
        have "\<forall>j<r. \<not> P (buf ! (data + j))"
        proof (intro allI impI)
          fix j assume "j < r"
          show "\<not> P (buf ! (data + j))"
          proof (cases "j < i")
            case True with "1.prems"(2) show ?thesis by simp
          next
            case False
            then have "j - i < k" "data + i + (j - i) = data + j" using \<open>j < r\<close> k(2) by auto
            with k(4) show ?thesis by metis
          qed
        qed
        moreover have "r < len" using k blk by simp
        moreover have "P (buf ! (data + r))" using k by (simp add: add.assoc)
        ultimately have "first_match P buf data len r" by (simp add: first_match_def)
        with blk True Some show ?thesis by (subst neon_loop.simps) simp
      qed
    qed
  qed
qed

lemma movemask_zero: "(movemask bs = 0) = (\<forall>b\<in>set bs. \<not> b)"
  by (induction bs) auto

lemma ctz_movemask:
  "\<exists>b\<in>set bs. b \<Longrightarrow> blazecsv_ctz (movemask bs) = length (takeWhile Not bs)"
proof (induction bs)
  case Nil
  then show ?case by simp
next
  case (Cons b bs)
  show ?case
  proof (cases b)
    case True
    then show ?thesis by (simp add: blazecsv_ctz.simps[of "Suc (2 * movemask bs)"])
  next
    case False
    with Cons.prems have ex: "\<exists>b\<in>set bs. b" by simp
    then have "movemask bs \<noteq> 0" by (simp add: movemask_zero)
    with False Cons.IH[OF ex] show ?thesis
      by (simp add: blazecsv_ctz.simps[of "2 * movemask bs"])
  qed
qed

lemma takeWhile_Not_first:
  "\<exists>b\<in>set bs. b \<Longrightarrow>
   length (takeWhile Not bs) < length bs \<and> bs ! length (takeWhile Not bs) \<and>
   (\<forall>k<length (takeWhile Not bs). \<not> bs ! k)"
proof (induction bs)
  case Nil
  then show ?case by simp
next
  case (Cons b bs)
  show ?case
  proof (cases b)
    case True
    then show ?thesis by simp
  next
    case False
    with Cons.prems have "\<exists>b\<in>set bs. b" by simp
    from Cons.IH[OF this] False show ?thesis
      by (auto simp: nth_Cons split: nat.splits)
  qed
qed

lemma sse2_loop_first:
  "i \<le> len \<Longrightarrow> \<forall>j<i. \<not> P (buf ! (data + j)) \<Longrightarrow>
   first_match P buf data len (sse2_loop P buf data len i)"
proof (induction P buf data len i rule: sse2_loop.induct)
  case (1 P buf data len i)
  show ?case
  proof (cases "i + 16 \<le> len")
    case False
    then have "sse2_loop P buf data len i = scalar_loop P buf data len i"
      by (subst sse2_loop.simps) simp
    with "1.prems" show ?thesis by (simp add: scalar_loop_first)
  next
    case True
    note blk = True
    let ?ls = "cmp_lanes P buf data i"
    have len_ls: "length ?ls = 16" by (rule cmp_lanes_length)
    have nth_ls: "\<And>k. k < 16 \<Longrightarrow> ?ls ! k = P (buf ! (data + i + k))"
      by (rule cmp_lanes_nth)
    show ?thesis
    proof (cases "movemask ?ls = 0")
      case True
      then have "\<forall>b\<in>set ?ls. \<not> b" by (simp only: movemask_zero)
      then have none: "\<forall>k<16. \<not> P (buf ! (data + i + k))"
        using cmp_lanes_ex[of P buf data i] by blast
      have all: "\<forall>j<i + 16. \<not> P (buf ! (data + j))"
      proof (intro allI impI)
        fix j assume "j < i + 16"
        show "\<not> P (buf ! (data + j))"
        proof (cases "j < i")
          case True with "1.prems"(2) show ?thesis by simp
        next
          case False
          then have "j - i < 16" "data + i + (j - i) = data + j" using \<open>j < i + 16\<close> by auto
          with none show ?thesis by metis
        qed
      qed
      from True have nz: "\<not> movemask ?ls \<noteq> 0" by simp
      have "first_match P buf data len (sse2_loop P buf data len (i + 16))"
        using "1.IH"[OF blk refl nz blk all] .
      with blk True show ?thesis by (subst sse2_loop.simps) simp
    next
      case False
      then have ex: "\<exists>b\<in>set ?ls. b" by (simp only: movemask_zero) blast
      define k where "k = length (takeWhile Not ?ls)"
      have ctz: "blazecsv_ctz (movemask ?ls) = k"
        unfolding k_def by (rule ctz_movemask[OF ex])
      from takeWhile_Not_first[OF ex] have klt: "k < length ?ls" and hit: "?ls ! k"
        and miss: "\<forall>k'<k. \<not> ?ls ! k'"
        unfolding k_def by blast+
      from klt have k16: "k < 16" using len_ls by simp
      from hit have pk: "P (buf ! (data + i + k))" using nth_ls[OF k16] by simp
      have before: "\<forall>k'<k. \<not> P (buf ! (data + i + k'))"
      proof (intro allI impI)
        fix k' assume a: "k' < k"
        with miss have "\<not> ?ls ! k'" by blast
        moreover from a k16 have "k' < 16" by simp
        ultimately show "\<not> P (buf ! (data + i + k'))" using nth_ls[of k'] by simp
      qed
      have "\<forall>j<i + k. \<not> P (buf ! (data + j))"
      proof (intro allI impI)
        fix j assume "j < i + k"
        show "\<not> P (buf ! (data + j))"
        proof (cases "j < i")
          case True with "1.prems"(2) show ?thesis by simp
        next
          case False
          then have "j - i < k" "data + i + (j - i) = data + j" using \<open>j < i + k\<close> by auto
          with before show ?thesis by metis
        qed
      qed
      moreover have "i + k < len" using k16 blk by simp
      moreover have "P (buf ! (data + (i + k)))" using pk by (simp add: add.assoc)
      ultimately have "first_match P buf data len (i + k)" by (simp add: first_match_def)
      with blk False ctz show ?thesis by (subst sse2_loop.simps) (simp add: Let_def)
    qed
  qed
qed

lemma scan_first: "first_match P buf data len (scan sm P buf data len)"
  by (cases sm) (simp_all add: scan_def scalar_loop_first neon_loop_first sse2_loop_first)

lemma scan_scalar: "scan sm P buf data len = scan Scalar P buf data len"
  using first_match_unique scan_first by blast

text \<open>
  Claim C4. For every buffer window of \<open>len\<close> bytes starting at \<open>data\<close> and every delimiter,
  \<open>find_field_end\<close> returns the least index whose byte is the delimiter, a line feed or a
  carriage return, or \<open>len\<close> when there is none, and \<open>find_newline\<close> returns the least index
  whose byte is a line feed, or \<open>len\<close>; the result never exceeds \<open>len\<close>. This holds for each
  of the three bodies and for every length, below 16 (scalar path) and from 16 on (vectorized
  path).
\<close>

theorem scanners_least_index:
  assumes "data + len \<le> length buf"
  shows "find_field_end sm buf data len delim \<le> len \<and>
    (find_field_end sm buf data len delim < len \<longrightarrow>
       buf ! (data + find_field_end sm buf data len delim) \<in> {delim, CHR 0x0A, CHR 0x0D}) \<and>
    (\<forall>j < find_field_end sm buf data len delim.
       buf ! (data + j) \<notin> {delim, CHR 0x0A, CHR 0x0D}) \<and>
    find_newline sm buf data len \<le> len \<and>
    (find_newline sm buf data len < len \<longrightarrow>
       buf ! (data + find_newline sm buf data len) = CHR 0x0A) \<and>
    (\<forall>j < find_newline sm buf data len. buf ! (data + j) \<noteq> CHR 0x0A)"
proof -
  have f: "first_match (is_field_end delim) buf data len (find_field_end sm buf data len delim)"
    unfolding find_field_end_def by (rule scan_first)
  have n: "first_match is_newline buf data len (find_newline sm buf data len)"
    unfolding find_newline_def by (rule scan_first)
  from f n show ?thesis
    unfolding first_match_def is_field_end_def is_newline_def by simp
qed

theorem scanners_least_index_witness:
  "0 + 24 \<le> length (''abcdefghijklmnopq,rs'' @ [CHR 0x0A] @ ''1,2'') \<and>
   find_field_end SSE2 (''abcdefghijklmnopq,rs'' @ [CHR 0x0A] @ ''1,2'') 0 24 (CHR '','') = 17 \<and>
   find_newline NEON (''abcdefghijklmnopq,rs'' @ [CHR 0x0A] @ ''1,2'') 0 24 = 20 \<and>
   find_field_end SSE2 (''abcdefghijklmnopq,rs'' @ [CHR 0x0A] @ ''1,2'') 0 24 (CHR '','') \<le> 24"
proof -
  have h: "0 + 24 \<le> length (''abcdefghijklmnopq,rs'' @ [CHR 0x0A] @ ''1,2'')" by simp
  have a: "find_field_end SSE2 (''abcdefghijklmnopq,rs'' @ [CHR 0x0A] @ ''1,2'') 0 24 (CHR '','') = 17"
    by code_simp
  have b: "find_newline NEON (''abcdefghijklmnopq,rs'' @ [CHR 0x0A] @ ''1,2'') 0 24 = 20"
    by code_simp
  from scanners_least_index[OF h, of SSE2 "CHR '',''"] h a b show ?thesis by blast
qed

section \<open>Integer parsing\<close>

lemma base10_rev_snoc: "base10_rev (cs @ [c]) = base10_rev cs + 10 ^ length cs * digit_value c"
  by (induction cs) (simp_all add: algebra_simps)

lemma digits_value_base10: "digits_value ds acc = acc * 10 ^ length ds + base10 ds"
proof (induction ds arbitrary: acc)
  case Nil
  then show ?case by (simp add: base10_def)
next
  case (Cons d ds)
  have "base10 (d # ds) = base10 ds + 10 ^ length ds * digit_value d"
    by (simp add: base10_def base10_rev_snoc)
  with Cons[of "10 * acc + digit_value d"] show ?case by (simp add: algebra_simps)
qed

lemma minus_not_digit: "\<not> is_digit CHR ''-''"
  by (simp add: is_digit_def)

lemma takeWhile_digits:
  "list_all is_digit ds \<Longrightarrow> rest = [] \<or> \<not> is_digit (hd rest) \<Longrightarrow>
   takeWhile is_digit (ds @ rest) = ds"
  by (cases rest) (auto simp: list_all_iff takeWhile_append2)

lemma fc_split: "s = fc_sign T s @ fc_ds T s @ fc_rest T s"
  by (cases s) (auto simp: fc_sign_def fc_ds_def fc_rest_def fc_body_def fc_neg_def)

lemma fc_rest_head: "fc_rest T s = [] \<or> \<not> is_digit (hd (fc_rest T s))"
  unfolding fc_rest_def by (metis hd_dropWhile)

lemma fc_numeral: "fc_ds T s \<noteq> [] \<Longrightarrow> int_numeral T (fc_sign T s) (fc_ds T s)"
  unfolding int_numeral_def fc_sign_def fc_ds_def fc_neg_def
  by (auto simp: list_all_iff dest: set_takeWhileD)

lemma fc_unique:
  assumes s: "s = sign @ ds @ rest" and n: "int_numeral T sign ds"
    and r: "rest = [] \<or> \<not> is_digit (hd rest)"
  shows "fc_sign T s = sign \<and> fc_ds T s = ds \<and> fc_rest T s = rest"
proof -
  from n have ds: "ds \<noteq> []" "list_all is_digit ds" by (simp_all add: int_numeral_def)
  then have hd_ds: "is_digit (hd ds)" by (cases ds) simp_all
  from n consider (pos) "sign = []" | (neg) "is_signed T" "sign = ''-''"
    by (auto simp: int_numeral_def)
  then show ?thesis
  proof cases
    case pos
    with s ds have "hd s = hd ds" "s \<noteq> []" by simp_all
    with hd_ds minus_not_digit have nn: "\<not> fc_neg T s" by (auto simp: fc_neg_def)
    then have b: "fc_body T s = ds @ rest" using s pos by (simp add: fc_body_def)
    have "takeWhile is_digit (ds @ rest) = ds" by (rule takeWhile_digits[OF ds(2) r])
    moreover have "dropWhile is_digit (ds @ rest) = rest"
      using takeWhile_dropWhile_id[of is_digit "ds @ rest"] calculation by simp
    ultimately show ?thesis using nn b pos by (simp add: fc_sign_def fc_ds_def fc_rest_def)
  next
    case neg
    with s have nn: "fc_neg T s" by (simp add: fc_neg_def)
    then have b: "fc_body T s = ds @ rest" using s neg by (simp add: fc_body_def)
    have "takeWhile is_digit (ds @ rest) = ds" by (rule takeWhile_digits[OF ds(2) r])
    moreover have "dropWhile is_digit (ds @ rest) = rest"
      using takeWhile_dropWhile_id[of is_digit "ds @ rest"] calculation by simp
    ultimately show ?thesis using nn b neg by (simp add: fc_sign_def fc_ds_def fc_rest_def)
  qed
qed

lemma parse_int_cases:
  "parse_int T s =
    (if fc_ds T s = [] then Inl InvalidInteger
     else if \<not> fits T (numeral_value (fc_sign T s) (fc_ds T s)) then Inl OutOfRange
     else if fc_rest T s = [] then Inr (numeral_value (fc_sign T s) (fc_ds T s))
     else Inl InvalidInteger)"
proof -
  have len: "length s = length (fc_sign T s) + length (fc_ds T s) + length (fc_rest T s)"
    using fc_split[of s T] by (metis append.assoc length_append)
  have ptr: "((if fc_neg T s then 1 else 0) + length (fc_ds T s) = length s) = (fc_rest T s = [])"
    using len by (auto simp: fc_sign_def)
  have v: "(if fc_neg T s then - digits_value (fc_ds T s) 0 else digits_value (fc_ds T s) 0)
      = numeral_value (fc_sign T s) (fc_ds T s)"
    by (simp add: numeral_value_def fc_sign_def digits_value_base10)
  have "parse_int T s =
    (if fc_ds T s = [] then Inl InvalidInteger
     else if \<not> fits T (if fc_neg T s then - digits_value (fc_ds T s) 0 else digits_value (fc_ds T s) 0)
       then Inl OutOfRange
     else if (if fc_neg T s then 1 else 0) + length (fc_ds T s) = length s
       then Inr (if fc_neg T s then - digits_value (fc_ds T s) 0 else digits_value (fc_ds T s) 0)
     else Inl InvalidInteger)"
    unfolding parse_int_def from_chars_def Let_def fc_ds_def fc_body_def fc_neg_def fits_def
    by (simp add: not_le not_less)
  then show ?thesis unfolding v ptr .
qed

text \<open>
  Claim C5, as the specification states it, makes \<open>parse\<close> succeed on every slice that is
  wholly an integer with an optional plus or minus sign and fits, and answer
  \<open>InvalidInteger\<close> on a slice with trailing non-digit bytes. The code accepts no plus sign
  ("+5" is \<open>InvalidInteger\<close>, the specification gives 5), and reports \<open>OutOfRange\<close> as soon
  as the leading numeral does not fit, whatever follows it ("99999999999x").
\<close>

theorem parse_int_counterexample:
  "parse_int int32 ''+5'' = Inl InvalidInteger \<and> spec_parse_int int32 ''+5'' = Inr 5 \<and>
   parse_int int32 ''99999999999x'' = Inl OutOfRange \<and>
   spec_parse_int int32 ''99999999999x'' = Inl InvalidInteger"
  by code_simp

text \<open>
  Claim C5, amended. \<open>parse\<close> for an integral type succeeds with the base-10 value exactly
  when the whole slice is a minus sign (signed types only; a plus sign is never accepted)
  followed by one or more digits, or just the digits, and the value fits the type. It fails
  with \<open>OutOfRange\<close> exactly when the slice starts with such a numeral, taken up to the first
  non-digit byte or the end, whose value does not fit the type. Every other failure is
  \<open>InvalidInteger\<close>.
\<close>

theorem parse_int_amended:
  "((parse_int T s = Inr v) =
     (\<exists>sign ds. s = sign @ ds \<and> int_numeral T sign ds \<and> v = numeral_value sign ds \<and> fits T v)) \<and>
   ((parse_int T s = Inl OutOfRange) =
     (\<exists>sign ds rest. s = sign @ ds @ rest \<and> int_numeral T sign ds \<and>
        (rest = [] \<or> \<not> is_digit (hd rest)) \<and> \<not> fits T (numeral_value sign ds))) \<and>
   ((\<forall>v. parse_int T s \<noteq> Inr v) \<and> parse_int T s \<noteq> Inl OutOfRange \<longrightarrow>
      parse_int T s = Inl InvalidInteger)"
proof (intro conjI)
  show "(parse_int T s = Inr v) =
     (\<exists>sign ds. s = sign @ ds \<and> int_numeral T sign ds \<and> v = numeral_value sign ds \<and> fits T v)"
  proof
    assume a: "parse_int T s = Inr v"
    then have d: "fc_ds T s \<noteq> []" "fits T (numeral_value (fc_sign T s) (fc_ds T s))"
      "fc_rest T s = []" "v = numeral_value (fc_sign T s) (fc_ds T s)"
      unfolding parse_int_cases by (auto split: if_splits)
    from fc_split[of s T] d(3) have "s = fc_sign T s @ fc_ds T s" by simp
    with fc_numeral[OF d(1)] d show "\<exists>sign ds. s = sign @ ds \<and> int_numeral T sign ds \<and>
      v = numeral_value sign ds \<and> fits T v" by blast
  next
    assume "\<exists>sign ds. s = sign @ ds \<and> int_numeral T sign ds \<and> v = numeral_value sign ds \<and> fits T v"
    then obtain sign ds where h: "s = sign @ ds @ []" "int_numeral T sign ds"
      "v = numeral_value sign ds" "fits T v" by auto
    from fc_unique[OF h(1) h(2)] have u: "fc_sign T s = sign" "fc_ds T s = ds" "fc_rest T s = []"
      by simp_all
    from h(2) have "ds \<noteq> []" by (simp add: int_numeral_def)
    with u h show "parse_int T s = Inr v" unfolding parse_int_cases by simp
  qed
  show "(parse_int T s = Inl OutOfRange) =
     (\<exists>sign ds rest. s = sign @ ds @ rest \<and> int_numeral T sign ds \<and>
        (rest = [] \<or> \<not> is_digit (hd rest)) \<and> \<not> fits T (numeral_value sign ds))"
  proof
    assume a: "parse_int T s = Inl OutOfRange"
    then have d: "fc_ds T s \<noteq> []" "\<not> fits T (numeral_value (fc_sign T s) (fc_ds T s))"
      unfolding parse_int_cases by (auto split: if_splits)
    with fc_split[of s T] fc_numeral[OF d(1)] fc_rest_head[of T s]
    show "\<exists>sign ds rest. s = sign @ ds @ rest \<and> int_numeral T sign ds \<and>
        (rest = [] \<or> \<not> is_digit (hd rest)) \<and> \<not> fits T (numeral_value sign ds)" by blast
  next
    assume "\<exists>sign ds rest. s = sign @ ds @ rest \<and> int_numeral T sign ds \<and>
        (rest = [] \<or> \<not> is_digit (hd rest)) \<and> \<not> fits T (numeral_value sign ds)"
    then obtain sign ds rest where h: "s = sign @ ds @ rest" "int_numeral T sign ds"
      "rest = [] \<or> \<not> is_digit (hd rest)" "\<not> fits T (numeral_value sign ds)" by blast
    from fc_unique[OF h(1) h(2) h(3)] have u: "fc_sign T s = sign" "fc_ds T s = ds" by simp_all
    from h(2) have "ds \<noteq> []" by (simp add: int_numeral_def)
    with u h show "parse_int T s = Inl OutOfRange" unfolding parse_int_cases by simp
  qed
  show "(\<forall>v. parse_int T s \<noteq> Inr v) \<and> parse_int T s \<noteq> Inl OutOfRange \<longrightarrow> parse_int T s = Inl InvalidInteger"
    unfolding parse_int_cases by simp
qed

theorem parse_int_amended_witness:
  "parse_int int32 ''-42'' = Inr (- 42) \<and> parse_int int32 ''2147483648'' = Inl OutOfRange \<and>
   parse_int uint32 ''-1'' = Inl InvalidInteger \<and> parse_int int32 [] = Inl InvalidInteger"
proof -
  have a: "parse_int int32 ''-42'' = Inr (- 42)" by code_simp
  have b: "parse_int int32 ''2147483648'' = Inl OutOfRange" by code_simp
  have c: "\<forall>v. parse_int uint32 ''-1'' \<noteq> Inr v" "parse_int uint32 ''-1'' \<noteq> Inl OutOfRange"
    unfolding parse_int_cases by (simp_all add: fc_ds_def fc_body_def fc_neg_def uint32_def is_digit_def)
  have d: "\<forall>v. parse_int int32 [] \<noteq> Inr v" "parse_int int32 [] \<noteq> Inl OutOfRange"
    unfolding parse_int_cases by (simp_all add: fc_ds_def fc_body_def fc_neg_def)
  from parse_int_amended[of uint32 "''-1''"] c have "parse_int uint32 ''-1'' = Inl InvalidInteger"
    by blast
  moreover from parse_int_amended[of int32 "[]"] d have "parse_int int32 [] = Inl InvalidInteger"
    by blast
  ultimately show ?thesis using a b by simp
qed

section \<open>Date parsing\<close>

lemma digit_value_range: "is_digit c \<Longrightarrow> 0 \<le> digit_value c \<and> digit_value c \<le> 9"
  by (auto simp: is_digit_def digit_value_def)

lemma base10_rev_range:
  "list_all is_digit cs \<Longrightarrow> 0 \<le> base10_rev cs \<and> base10_rev cs < 10 ^ length cs"
proof (induction cs)
  case Nil
  then show ?case by simp
next
  case (Cons c cs)
  then have "0 \<le> base10_rev cs" "base10_rev cs + 1 \<le> 10 ^ length cs" by simp_all
  moreover from Cons.prems have "0 \<le> digit_value c" "digit_value c \<le> 9"
    using digit_value_range by simp_all
  ultimately show ?case by simp
qed

lemma base10_range: "list_all is_digit ds \<Longrightarrow> 0 \<le> base10 ds \<and> base10 ds < 10 ^ length ds"
  using base10_rev_range[of "rev ds"] by (simp add: base10_def list_all_iff)

lemma from_chars_digits:
  assumes d: "list_all is_digit ds" and ne: "ds \<noteq> []" and len: "length ds \<le> 4"
  shows "from_chars int32 ds v = ((length ds, errc_none), base10 ds)"
proof -
  from d ne have "is_digit (hd ds)" by (cases ds) simp_all
  with minus_not_digit have nn: "hd ds \<noteq> CHR ''-''" by auto
  from d have tw: "takeWhile is_digit ds = ds" by (simp add: list_all_iff)
  have "(10::int) ^ length ds \<le> 10 ^ 4" using len by (intro power_increasing) simp_all
  with base10_range[OF d] have r: "0 \<le> base10 ds" "base10 ds < 10000" by simp_all
  show ?thesis
    unfolding from_chars_def Let_def using nn ne r
    by (simp add: tw int32_def T_min_def T_max_def digits_value_base10)
qed

lemma ymd_ok_valid:
  assumes "0 \<le> y" "y < 10000"
  shows "ymd_ok \<lparr>ymd_year = y, ymd_month = m, ymd_day = d\<rparr> = valid_date y m d"
proof -
  have leap: "is_leap y = ((4 dvd y \<and> \<not> 100 dvd y) \<or> 400 dvd y)"
    unfolding is_leap_def by (auto simp: mod_eq_0_iff_dvd) 
  have "m = 0 \<or> m = 1 \<or> m = 2 \<or> m = 3 \<or> m = 4 \<or> m = 5 \<or> m = 6 \<or> m = 7
    \<or> m = 8 \<or> m = 9 \<or> m = 10 \<or> m = 11 \<or> m = 12 \<or> m > 12" by arith
  then show ?thesis
    using assms
    by (elim disjE) (auto simp: ymd_ok_def valid_date_def last_day_def days_in_month_def leap)
qed

lemma parse_date_shape:
  assumes d: "list_all is_digit [y1, y2, y3, y4, m1, m2, d1, d2]"
  shows "parse_date ([y1, y2, y3, y4, CHR ''-'', m1, m2, CHR ''-'', d1, d2] @ rest) =
    (if valid_date (base10 [y1, y2, y3, y4]) (nat (base10 [m1, m2])) (nat (base10 [d1, d2]))
     then Inr \<lparr>ymd_year = base10 [y1, y2, y3, y4], ymd_month = nat (base10 [m1, m2]),
               ymd_day = nat (base10 [d1, d2])\<rparr>
     else Inl InvalidDate)"
proof -
  let ?s = "[y1, y2, y3, y4, CHR ''-'', m1, m2, CHR ''-'', d1, d2] @ rest"
  have dy: "list_all is_digit [y1, y2, y3, y4]" and dm: "list_all is_digit [m1, m2]"
    and dd: "list_all is_digit [d1, d2]" using d by simp_all
  have y: "from_chars int32 [y1, y2, y3, y4] 0 = ((4, errc_none), base10 [y1, y2, y3, y4])"
    using from_chars_digits[OF dy] by simp
  have m: "from_chars int32 [m1, m2] 0 = ((2, errc_none), base10 [m1, m2])"
    using from_chars_digits[OF dm] by simp
  have dd': "from_chars int32 [d1, d2] 0 = ((2, errc_none), base10 [d1, d2])"
    using from_chars_digits[OF dd] by simp
  have ry: "0 \<le> base10 [y1, y2, y3, y4]" "base10 [y1, y2, y3, y4] < 10000"
    using base10_range[OF dy] by simp_all
  have rm: "0 \<le> base10 [m1, m2]" "base10 [m1, m2] < 100" using base10_range[OF dm] by simp_all
  have rd: "0 \<le> base10 [d1, d2]" "base10 [d1, d2] < 100" using base10_range[OF dd] by simp_all
  have cy: "chrono_year (base10 [y1, y2, y3, y4]) = base10 [y1, y2, y3, y4]"
    using ry by (simp add: chrono_year_def)
  have cm: "chrono_u8 (base10 [m1, m2]) = nat (base10 [m1, m2])"
    using rm by (simp add: chrono_u8_def nat_less_iff)
  have cd: "chrono_u8 (base10 [d1, d2]) = nat (base10 [d1, d2])"
    using rd by (simp add: chrono_u8_def nat_less_iff)
  show ?thesis
    by (simp add: parse_date_def Let_def y m dd' cy cm cd ymd_ok_valid[OF ry])
qed

lemma parse_date_unfold:
  "parse_date s =
    (if length s < 10 then Inl InvalidDate
     else if snd (fst (from_chars int32 (take 4 s) 0)) \<noteq> errc_none \<or> s ! 4 \<noteq> CHR ''-''
     then Inl InvalidDate
     else if snd (fst (from_chars int32 (take 2 (drop 5 s)) 0)) \<noteq> errc_none \<or> s ! 7 \<noteq> CHR ''-''
     then Inl InvalidDate
     else if snd (fst (from_chars int32 (take 2 (drop 8 s)) 0)) \<noteq> errc_none
     then Inl InvalidDate
     else if \<not> ymd_ok \<lparr>ymd_year = chrono_year (snd (from_chars int32 (take 4 s) 0)),
                          ymd_month = chrono_u8 (snd (from_chars int32 (take 2 (drop 5 s)) 0)),
                          ymd_day = chrono_u8 (snd (from_chars int32 (take 2 (drop 8 s)) 0))\<rparr>
     then Inl InvalidDate
     else Inr \<lparr>ymd_year = chrono_year (snd (from_chars int32 (take 4 s) 0)),
                ymd_month = chrono_u8 (snd (from_chars int32 (take 2 (drop 5 s)) 0)),
                ymd_day = chrono_u8 (snd (from_chars int32 (take 2 (drop 8 s)) 0))\<rparr>)"
  by (simp add: parse_date_def Let_def case_prod_unfold)

lemma date_parts:
  assumes "10 \<le> length s"
  shows "take 4 s = [s ! 0, s ! 1, s ! 2, s ! 3]"
    and "take 2 (drop 5 s) = [s ! 5, s ! 6]"
    and "take 2 (drop 8 s) = [s ! 8, s ! 9]"
proof -
  from assms obtain a0 a1 a2 a3 a4 a5 a6 a7 a8 a9 r where
    s: "s = a0 # a1 # a2 # a3 # a4 # a5 # a6 # a7 # a8 # a9 # r"
    by (cases s; simp; rename_tac b0 t0; case_tac t0; simp; rename_tac b1 t1; case_tac t1; simp;
        rename_tac b2 t2; case_tac t2; simp; rename_tac b3 t3; case_tac t3; simp;
        rename_tac b4 t4; case_tac t4; simp; rename_tac b5 t5; case_tac t5; simp;
        rename_tac b6 t6; case_tac t6; simp; rename_tac b7 t7; case_tac t7; simp;
        rename_tac b8 t8; case_tac t8; simp)
  show "take 4 s = [s ! 0, s ! 1, s ! 2, s ! 3]" unfolding s by simp
  show "take 2 (drop 5 s) = [s ! 5, s ! 6]" unfolding s by simp
  show "take 2 (drop 8 s) = [s ! 8, s ! 9]" unfolding s by simp
qed

lemma from_chars_no_numeral:
  assumes "\<not> (is_digit a \<or> a = CHR ''-'' \<and> is_digit b)"
  shows "snd (fst (from_chars int32 (a # b # r) v)) \<noteq> errc_none"
  using assms by (simp add: from_chars_def Let_def int32_def)

lemma digit_value_small: "is_digit c \<Longrightarrow> 0 \<le> digit_value c \<and> digit_value c \<le> 9"
  using digit_value_range[of c] by simp

lemma from_chars_minus:
  assumes "\<not> is_digit a"
  shows "snd (fst (from_chars int32 [a, b] v)) \<noteq> errc_none \<or>
    (- 9 \<le> snd (from_chars int32 [a, b] v) \<and> snd (from_chars int32 [a, b] v) \<le> 0)"
proof (cases "a = CHR ''-'' \<and> is_digit b")
  case False
  with assms from_chars_no_numeral[of a b "[]" v] show ?thesis by simp
next
  case True
  with digit_value_small[of b] show ?thesis
    by (simp add: from_chars_def Let_def int32_def T_min_def T_max_def)
qed

lemma chrono_u8_minus:
  assumes "- 9 \<le> x" "x \<le> 0"
  shows "chrono_u8 x = 0 \<or> 247 \<le> chrono_u8 x"
proof -
  from assms have "x = 0 \<or> x = - 1 \<or> x = - 2 \<or> x = - 3 \<or> x = - 4 \<or> x = - 5 \<or> x = - 6
    \<or> x = - 7 \<or> x = - 8 \<or> x = - 9" by arith
  then show ?thesis by (elim disjE) (simp_all add: chrono_u8_def)
qed

lemma ymd_not_ok_month: "m = 0 \<or> 247 \<le> m \<Longrightarrow> \<not> ymd_ok \<lparr>ymd_year = y, ymd_month = m, ymd_day = d\<rparr>"
  by (auto simp: ymd_ok_def)

lemma ymd_not_ok_day: "d = 0 \<or> 247 \<le> d \<Longrightarrow> \<not> ymd_ok \<lparr>ymd_year = y, ymd_month = m, ymd_day = d\<rparr>"
  by (auto simp: ymd_ok_def)

lemma parse_date_rejects:
  assumes len: "10 \<le> length s"
    and bad: "s ! 4 \<noteq> CHR ''-'' \<or> s ! 7 \<noteq> CHR ''-'' \<or> \<not> is_digit (s ! 5) \<or> \<not> is_digit (s ! 8) \<or>
      \<not> (is_digit (s ! 0) \<or> s ! 0 = CHR ''-'' \<and> is_digit (s ! 1))"
  shows "parse_date s = Inl InvalidDate"
proof -
  note p = date_parts[OF len]
  from bad consider
    (sep) "s ! 4 \<noteq> CHR ''-'' \<or> s ! 7 \<noteq> CHR ''-''"
    | (year) "\<not> (is_digit (s ! 0) \<or> s ! 0 = CHR ''-'' \<and> is_digit (s ! 1))"
    | (month) "\<not> is_digit (s ! 5)"
    | (day) "\<not> is_digit (s ! 8)" by blast
  then show ?thesis
  proof cases
    case sep
    then show ?thesis by (subst parse_date_unfold) auto
  next
    case year
    from from_chars_no_numeral[OF year, of "[s ! 2, s ! 3]" 0] show ?thesis
      by (subst parse_date_unfold) (simp add: p)
  next
    case month
    from from_chars_minus[OF month, of "s ! 6" 0] show ?thesis
    proof
      assume "snd (fst (from_chars int32 [s ! 5, s ! 6] 0)) \<noteq> errc_none"
      then show ?thesis by (subst parse_date_unfold) (simp add: p)
    next
      assume "- 9 \<le> snd (from_chars int32 [s ! 5, s ! 6] 0) \<and>
        snd (from_chars int32 [s ! 5, s ! 6] 0) \<le> 0"
      then have "chrono_u8 (snd (from_chars int32 [s ! 5, s ! 6] 0)) = 0 \<or>
        247 \<le> chrono_u8 (snd (from_chars int32 [s ! 5, s ! 6] 0))"
        using chrono_u8_minus by blast
      from ymd_not_ok_month[OF this] show ?thesis
        by (subst parse_date_unfold) (simp add: p)
    qed
  next
    case day
    from from_chars_minus[OF day, of "s ! 9" 0] show ?thesis
    proof
      assume "snd (fst (from_chars int32 [s ! 8, s ! 9] 0)) \<noteq> errc_none"
      then show ?thesis by (subst parse_date_unfold) (simp add: p)
    next
      assume "- 9 \<le> snd (from_chars int32 [s ! 8, s ! 9] 0) \<and>
        snd (from_chars int32 [s ! 8, s ! 9] 0) \<le> 0"
      then have "chrono_u8 (snd (from_chars int32 [s ! 8, s ! 9] 0)) = 0 \<or>
        247 \<le> chrono_u8 (snd (from_chars int32 [s ! 8, s ! 9] 0))"
        using chrono_u8_minus by blast
      from ymd_not_ok_day[OF this] show ?thesis
        by (subst parse_date_unfold) (simp add: p)
    qed
  qed
qed

lemma ymd_ok_calendar:
  assumes "ymd_ok d"
  shows "valid_date (ymd_year d) (ymd_month d) (ymd_day d)"
proof -
  let ?y = "ymd_year d" and ?m = "ymd_month d"
  have leap: "is_leap ?y = ((4 dvd ?y \<and> \<not> 100 dvd ?y) \<or> 400 dvd ?y)"
    unfolding is_leap_def by (auto simp: mod_eq_0_iff_dvd)
  have "?m = 0 \<or> ?m = 1 \<or> ?m = 2 \<or> ?m = 3 \<or> ?m = 4 \<or> ?m = 5 \<or> ?m = 6 \<or> ?m = 7
    \<or> ?m = 8 \<or> ?m = 9 \<or> ?m = 10 \<or> ?m = 11 \<or> ?m = 12 \<or> ?m > 12" by arith
  then show ?thesis
    using assms
    by (elim disjE) (auto simp: ymd_ok_def valid_date_def last_day_def days_in_month_def leap)
qed

lemma parse_date_result:
  "parse_date s = Inl InvalidDate \<or>
   (\<exists>d. parse_date s = Inr d \<and> valid_date (ymd_year d) (ymd_month d) (ymd_day d))"
proof (cases "parse_date s = Inl InvalidDate")
  case True
  then show ?thesis by simp
next
  case False
  let ?d = "\<lparr>ymd_year = chrono_year (snd (from_chars int32 (take 4 s) 0)),
              ymd_month = chrono_u8 (snd (from_chars int32 (take 2 (drop 5 s)) 0)),
              ymd_day = chrono_u8 (snd (from_chars int32 (take 2 (drop 8 s)) 0))\<rparr>"
  from False have "parse_date s = Inr ?d \<and> ymd_ok ?d"
    by (subst (asm) parse_date_unfold, subst parse_date_unfold) (simp split: if_splits)
  with ymd_ok_calendar[of ?d] show ?thesis by blast
qed

text \<open>
  Claim C6, as the specification states it, has \<open>parse_date\<close> answer \<open>InvalidDate\<close> on every
  slice that is not exactly the 10 bytes YYYY-MM-DD, slices longer than 10 bytes included.
  The code only rejects slices shorter than 10 bytes and reads the first 10 bytes of a
  longer one (\<open>parse_datetime\<close> calls it on its 19-byte slice): an 11-byte slice is accepted.
\<close>

theorem parse_date_counterexample:
  "length ''2024-02-29x'' = 11 \<and>
   parse_date ''2024-02-29x'' = Inr \<lparr>ymd_year = 2024, ymd_month = 2, ymd_day = 29\<rparr>"
  by code_simp

text \<open>
  Claim C6, amended. \<open>parse_date\<close> answers \<open>InvalidDate\<close> on every slice shorter than 10
  bytes, and reads only the first 10 bytes of a longer one. On a slice whose first 10 bytes
  have the form DDDD-DD-DD (D a decimal digit) it succeeds exactly when these denote a
  calendar-valid date (month 1 to 12, day valid for the month and the year, leap years
  included), with that date, whatever follows the tenth byte, and answers \<open>InvalidDate\<close>
  otherwise. It answers \<open>InvalidDate\<close> on every slice whose byte 4 or byte 7 is not a
  hyphen, whose month or day does not begin with a digit, or whose year begins neither with
  a digit nor with a minus sign and a digit. On every slice its answer is \<open>InvalidDate\<close> or a
  calendar-valid date, never another error. In particular it succeeds on "2024-02-29" and
  answers \<open>InvalidDate\<close> on "2023-02-29" and "2024-13-01". (Nothing more is stated of a
  slice whose year, month or day begins as a number and goes on with another byte.)
\<close>

theorem parse_date_amended:
  "(length s < 10 \<longrightarrow> parse_date s = Inl InvalidDate) \<and>
   (list_all is_digit [y1, y2, y3, y4, m1, m2, d1, d2] \<longrightarrow>
    parse_date ([y1, y2, y3, y4, CHR ''-'', m1, m2, CHR ''-'', d1, d2] @ rest) =
      (if valid_date (base10 [y1, y2, y3, y4]) (nat (base10 [m1, m2])) (nat (base10 [d1, d2]))
       then Inr \<lparr>ymd_year = base10 [y1, y2, y3, y4], ymd_month = nat (base10 [m1, m2]),
                 ymd_day = nat (base10 [d1, d2])\<rparr>
       else Inl InvalidDate)) \<and>
   (10 \<le> length s \<and>
    (s ! 4 \<noteq> CHR ''-'' \<or> s ! 7 \<noteq> CHR ''-'' \<or> \<not> is_digit (s ! 5) \<or> \<not> is_digit (s ! 8) \<or>
     \<not> (is_digit (s ! 0) \<or> s ! 0 = CHR ''-'' \<and> is_digit (s ! 1))) \<longrightarrow>
    parse_date s = Inl InvalidDate) \<and>
   (parse_date s = Inl InvalidDate \<or>
    (\<exists>d. parse_date s = Inr d \<and> valid_date (ymd_year d) (ymd_month d) (ymd_day d))) \<and>
   parse_date ''2024-02-29'' = Inr \<lparr>ymd_year = 2024, ymd_month = 2, ymd_day = 29\<rparr> \<and>
   parse_date ''2023-02-29'' = Inl InvalidDate \<and>
   parse_date ''2024-13-01'' = Inl InvalidDate"
proof (intro conjI impI)
  assume "length s < 10"
  then show "parse_date s = Inl InvalidDate" by (simp add: parse_date_def)
next
  assume "list_all is_digit [y1, y2, y3, y4, m1, m2, d1, d2]"
  then show "parse_date ([y1, y2, y3, y4, CHR ''-'', m1, m2, CHR ''-'', d1, d2] @ rest) =
      (if valid_date (base10 [y1, y2, y3, y4]) (nat (base10 [m1, m2])) (nat (base10 [d1, d2]))
       then Inr \<lparr>ymd_year = base10 [y1, y2, y3, y4], ymd_month = nat (base10 [m1, m2]),
                 ymd_day = nat (base10 [d1, d2])\<rparr>
       else Inl InvalidDate)"
    by (rule parse_date_shape)
next
  assume "10 \<le> length s \<and>
    (s ! 4 \<noteq> CHR ''-'' \<or> s ! 7 \<noteq> CHR ''-'' \<or> \<not> is_digit (s ! 5) \<or> \<not> is_digit (s ! 8) \<or>
     \<not> (is_digit (s ! 0) \<or> s ! 0 = CHR ''-'' \<and> is_digit (s ! 1)))"
  then show "parse_date s = Inl InvalidDate"
    using parse_date_rejects[of s] by (elim conjE) simp
next
  show "parse_date s = Inl InvalidDate \<or>
    (\<exists>d. parse_date s = Inr d \<and> valid_date (ymd_year d) (ymd_month d) (ymd_day d))"
    by (rule parse_date_result)
next
  show "parse_date ''2024-02-29'' = Inr \<lparr>ymd_year = 2024, ymd_month = 2, ymd_day = 29\<rparr>"
    by code_simp
next
  show "parse_date ''2023-02-29'' = Inl InvalidDate" by code_simp
next
  show "parse_date ''2024-13-01'' = Inl InvalidDate" by code_simp
qed

theorem parse_date_amended_witness:
  "parse_date ''2024-02'' = Inl InvalidDate \<and>
   parse_date (''1999-06-15'' @ ''T10:00:00'') = Inr \<lparr>ymd_year = 1999, ymd_month = 6, ymd_day = 15\<rparr> \<and>
   parse_date (''2100-02-29'' @ []) = Inl InvalidDate \<and>
   parse_date ''2024/01/15'' = Inl InvalidDate \<and>
   parse_date ''2024-xy-15'' = Inl InvalidDate \<and>
   parse_date ''2024-01--5'' = Inl InvalidDate \<and>
   (\<exists>d. parse_date ''2024-02-29'' = Inr d \<and> valid_date (ymd_year d) (ymd_month d) (ymd_day d))"
proof -
  have l: "length ''2024-02'' < 10" by simp
  have d1: "list_all is_digit [CHR ''1'', CHR ''9'', CHR ''9'', CHR ''9'', CHR ''0'', CHR ''6'', CHR ''1'', CHR ''5'']"
    by (simp add: is_digit_def)
  have d2: "list_all is_digit [CHR ''2'', CHR ''1'', CHR ''0'', CHR ''0'', CHR ''0'', CHR ''2'', CHR ''2'', CHR ''9'']"
    by (simp add: is_digit_def)
  have v1: "valid_date (base10 ''1999'') (nat (base10 ''06'')) (nat (base10 ''15''))" by code_simp
  have v2: "\<not> valid_date (base10 ''2100'') (nat (base10 ''02'')) (nat (base10 ''29''))" by code_simp
  have b1: "base10 ''1999'' = 1999" "nat (base10 ''06'') = 6" "nat (base10 ''15'') = 15" by code_simp+
  have h1: "10 \<le> length ''2024/01/15'' \<and>
    (''2024/01/15'' ! 4 \<noteq> CHR ''-'' \<or> ''2024/01/15'' ! 7 \<noteq> CHR ''-'' \<or>
     \<not> is_digit (''2024/01/15'' ! 5) \<or> \<not> is_digit (''2024/01/15'' ! 8) \<or>
     \<not> (is_digit (''2024/01/15'' ! 0) \<or> ''2024/01/15'' ! 0 = CHR ''-'' \<and> is_digit (''2024/01/15'' ! 1)))"
    by simp
  have h2: "10 \<le> length ''2024-xy-15'' \<and>
    (''2024-xy-15'' ! 4 \<noteq> CHR ''-'' \<or> ''2024-xy-15'' ! 7 \<noteq> CHR ''-'' \<or>
     \<not> is_digit (''2024-xy-15'' ! 5) \<or> \<not> is_digit (''2024-xy-15'' ! 8) \<or>
     \<not> (is_digit (''2024-xy-15'' ! 0) \<or> ''2024-xy-15'' ! 0 = CHR ''-'' \<and> is_digit (''2024-xy-15'' ! 1)))"
    by (simp add: is_digit_def)
  have h3: "10 \<le> length ''2024-01--5'' \<and>
    (''2024-01--5'' ! 4 \<noteq> CHR ''-'' \<or> ''2024-01--5'' ! 7 \<noteq> CHR ''-'' \<or>
     \<not> is_digit (''2024-01--5'' ! 5) \<or> \<not> is_digit (''2024-01--5'' ! 8) \<or>
     \<not> (is_digit (''2024-01--5'' ! 0) \<or> ''2024-01--5'' ! 0 = CHR ''-'' \<and> is_digit (''2024-01--5'' ! 1)))"
    by (simp add: is_digit_def)
  have c1: "parse_date ''2024-02'' = Inl InvalidDate"
    by (rule parse_date_amended[where s = "''2024-02''", THEN conjunct1, THEN mp, OF l])
  from parse_date_amended[where ?y1.0 = "CHR ''1''" and ?y2.0 = "CHR ''9''" and ?y3.0 = "CHR ''9''"
      and ?y4.0 = "CHR ''9''" and ?m1.0 = "CHR ''0''" and ?m2.0 = "CHR ''6''" and ?d1.0 = "CHR ''1''"
      and ?d2.0 = "CHR ''5''" and rest = "''T10:00:00''",
      THEN conjunct2, THEN conjunct1, THEN mp, OF d1] v1 b1
  have c2: "parse_date (''1999-06-15'' @ ''T10:00:00'') =
      Inr \<lparr>ymd_year = 1999, ymd_month = 6, ymd_day = 15\<rparr>"
    by simp
  from parse_date_amended[where ?y1.0 = "CHR ''2''" and ?y2.0 = "CHR ''1''" and ?y3.0 = "CHR ''0''"
      and ?y4.0 = "CHR ''0''" and ?m1.0 = "CHR ''0''" and ?m2.0 = "CHR ''2''" and ?d1.0 = "CHR ''2''"
      and ?d2.0 = "CHR ''9''" and rest = "[]",
      THEN conjunct2, THEN conjunct1, THEN mp, OF d2] v2
  have c3: "parse_date (''2100-02-29'' @ []) = Inl InvalidDate"
    by simp
  have c4: "parse_date ''2024/01/15'' = Inl InvalidDate"
    by (rule parse_date_amended[where s = "''2024/01/15''",
          THEN conjunct2, THEN conjunct2, THEN conjunct1, THEN mp, OF h1])
  have c5: "parse_date ''2024-xy-15'' = Inl InvalidDate"
    by (rule parse_date_amended[where s = "''2024-xy-15''",
          THEN conjunct2, THEN conjunct2, THEN conjunct1, THEN mp, OF h2])
  have c6: "parse_date ''2024-01--5'' = Inl InvalidDate"
    by (rule parse_date_amended[where s = "''2024-01--5''",
          THEN conjunct2, THEN conjunct2, THEN conjunct1, THEN mp, OF h3])
  note r = parse_date_amended[where s = "''2024-02-29''",
      THEN conjunct2, THEN conjunct2, THEN conjunct2]
  from r[THEN conjunct2, THEN conjunct1] have
    "parse_date ''2024-02-29'' \<noteq> Inl InvalidDate" by simp
  with r[THEN conjunct1] have
    c7: "\<exists>d. parse_date ''2024-02-29'' = Inr d \<and> valid_date (ymd_year d) (ymd_month d) (ymd_day d)"
    by simp
  from c1 c2 c3 c4 c5 c6 c7 show ?thesis by (intro conjI)
qed


section \<open>Rows do not depend on the arrays' previous contents\<close>

lemma field_loop_agree:
  assumes "length s1 = N" "length s2 = N" "length e1 = N" "length e2 = N"
    and "\<forall>i<col. s1 ! i = s2 ! i \<and> e1 ! i = e2 ! i"
    and "field_loop sm N D buf ee (ptr, col, s1, e1) = (p, c, s1', e1')"
  shows "\<exists>s2' e2'. field_loop sm N D buf ee (ptr, col, s2, e2) = (p, c, s2', e2') \<and>
    length s1' = N \<and> length s2' = N \<and> length e1' = N \<and> length e2' = N \<and>
    (\<forall>i<c. s1' ! i = s2' ! i \<and> e1' ! i = e2' ! i)"
  using assms
proof (induction sm N D buf ee "(ptr, col, s1, e1)" arbitrary: ptr col s1 e1 s2 e2
    rule: field_loop.induct)
  case (1 sm N D buf ee ptr col s1 e1)
  show ?case
  proof (cases "col < N \<and> ptr < ee")
    case False
    have f1: "field_loop sm N D buf ee (ptr, col, s1, e1) = (ptr, col, s1, e1)"
      by (subst field_loop.simps) (simp only: False if_False)
    have f2: "field_loop sm N D buf ee (ptr, col, s2, e2) = (ptr, col, s2, e2)"
      by (subst field_loop.simps) (simp only: False if_False)
    from "1.prems" f1 f2 show ?thesis by auto
  next
    case True
    let ?ptr1 = "ptr + find_field_end sm buf ptr (ee - ptr) D"
    let ?ptr2 = "if ?ptr1 < ee \<and> buf ! ?ptr1 = D then ?ptr1 + 1 else ?ptr1"
    have u1: "field_loop sm N D buf ee (ptr, col, s1, e1) =
        field_loop sm N D buf ee (?ptr2, col + 1, s1[col := Some ptr], e1[col := Some ?ptr1])"
      using True by (subst field_loop.simps) (simp add: Let_def)
    have u2: "field_loop sm N D buf ee (ptr, col, s2, e2) =
        field_loop sm N D buf ee (?ptr2, col + 1, s2[col := Some ptr], e2[col := Some ?ptr1])"
      using True by (subst field_loop.simps) (simp add: Let_def)
    have agree: "\<forall>i<col + 1. s1[col := Some ptr] ! i = s2[col := Some ptr] ! i \<and>
        e1[col := Some ?ptr1] ! i = e2[col := Some ?ptr1] ! i"
      using "1.prems"(1-5) True by (auto simp: nth_list_update less_Suc_eq)
    have run: "field_loop sm N D buf ee (?ptr2, col + 1, s1[col := Some ptr], e1[col := Some ?ptr1])
        = (p, c, s1', e1')"
      using "1.prems"(6) u1 by simp
    have "\<exists>s2' e2'. field_loop sm N D buf ee (?ptr2, col + 1, s2[col := Some ptr], e2[col := Some ?ptr1])
        = (p, c, s2', e2') \<and>
      length s1' = N \<and> length s2' = N \<and> length e1' = N \<and> length e2' = N \<and>
      (\<forall>i<c. s1' ! i = s2' ! i \<and> e1' ! i = e2' ! i)"
      by (rule "1.hyps"[OF True refl refl refl refl refl refl _ _ _ _ agree run])
        (simp_all add: "1.prems"(1-4))
    with u2 show ?thesis by simp
  qed
qed


lemma field_loop_col:
  "field_loop sm N D buf ee (ptr, col, s, e) = (p, c, s', e') \<Longrightarrow> col \<le> N \<Longrightarrow> c \<le> N"
proof (induction sm N D buf ee "(ptr, col, s, e)" arbitrary: ptr col s e rule: field_loop.induct)
  case (1 sm N D buf ee ptr col s e)
  show ?case
  proof (cases "col < N \<and> ptr < ee")
    case False
    have "field_loop sm N D buf ee (ptr, col, s, e) = (ptr, col, s, e)"
      by (subst field_loop.simps) (simp only: False if_False)
    with "1.prems" show ?thesis by simp
  next
    case True
    let ?ptr1 = "ptr + find_field_end sm buf ptr (ee - ptr) D"
    let ?ptr2 = "if ?ptr1 < ee \<and> buf ! ?ptr1 = D then ?ptr1 + 1 else ?ptr1"
    have "field_loop sm N D buf ee (ptr, col, s, e) =
        field_loop sm N D buf ee (?ptr2, col + 1, s[col := Some ptr], e[col := Some ?ptr1])"
      using True by (subst field_loop.simps) (simp add: Let_def)
    with "1.prems"(1) have run:
      "field_loop sm N D buf ee (?ptr2, col + 1, s[col := Some ptr], e[col := Some ?ptr1])
        = (p, c, s', e')" by simp
    from True have "col + 1 \<le> N" by simp
    with "1.hyps"[OF True refl refl refl refl refl refl run] show ?thesis .
  qed
qed

lemma parse_row_agree:
  assumes len: "length s1 = N" "length s2 = N" "length e1 = N" "length e2 = N"
    and run: "parse_row sm N D buf cur en s1 e1 = (c, col, s1', e1')"
  shows "\<exists>s2' e2'. parse_row sm N D buf cur en s2 e2 = (c, col, s2', e2') \<and>
    length s1' = N \<and> length s2' = N \<and> length e1' = N \<and> length e2' = N \<and> col \<le> N \<and>
    (\<forall>i<col. s1' ! i = s2' ! i \<and> e1' ! i = e2' ! i)"
proof -
  define le where "le = cur + find_newline sm buf cur (en - cur)"
  define ee where "ee = (if le > cur \<and> buf ! (le - 1) = CHR 0x0D then le - 1 else le)"
  define c' where "c' = (if le < en then le + 1 else en)"
  obtain p c0 a1 b1 where f1: "field_loop sm N D buf ee (cur, 0, s1, e1) = (p, c0, a1, b1)"
    by (cases "field_loop sm N D buf ee (cur, 0, s1, e1)") auto
  have vac: "\<forall>i<(0::nat). s1 ! i = s2 ! i \<and> e1 ! i = e2 ! i" by simp
  from field_loop_agree[OF len vac f1] obtain a2 b2 where
    f2: "field_loop sm N D buf ee (cur, 0, s2, e2) = (p, c0, a2, b2)" and
    l: "length a1 = N" "length a2 = N" "length b1 = N" "length b2 = N" and
    ag: "\<forall>i<c0. a1 ! i = a2 ! i \<and> b1 ! i = b2 ! i" by blast
  from field_loop_col[OF f1] have c0: "c0 \<le> N" by simp
  define te1 where
    "te1 = (c0 > 0 \<and> c0 < N \<and> the (b1 ! (c0 - 1)) < ee \<and> buf ! the (b1 ! (c0 - 1)) = D)"
  define te2 where
    "te2 = (c0 > 0 \<and> c0 < N \<and> the (b2 ! (c0 - 1)) < ee \<and> buf ! the (b2 ! (c0 - 1)) = D)"
  have "c0 > 0 \<Longrightarrow> b1 ! (c0 - 1) = b2 ! (c0 - 1)" using ag by simp
  then have te: "te1 = te2" unfolding te1_def te2_def by auto
  have r1: "parse_row sm N D buf cur en s1 e1 =
    (c', (if te1 then c0 + 1 else c0),
     (if te1 then a1[c0 := Some p] else a1), (if te1 then b1[c0 := Some p] else b1))"
    unfolding parse_row_def Let_def c'_def te1_def
    using f1[unfolded ee_def le_def] by (simp only: ee_def le_def prod.case)
  have r2: "parse_row sm N D buf cur en s2 e2 =
    (c', (if te2 then c0 + 1 else c0),
     (if te2 then a2[c0 := Some p] else a2), (if te2 then b2[c0 := Some p] else b2))"
    unfolding parse_row_def Let_def c'_def te2_def
    using f2[unfolded ee_def le_def] by (simp only: ee_def le_def prod.case)
  show ?thesis
  proof (cases te1)
    case True
    then have t2: te2 using te by simp
    from run[unfolded r1] True have eqs: "c = c'"
      "col = c0 + 1" "s1' = a1[c0 := Some p]" "e1' = b1[c0 := Some p]"
      by simp_all
    have ag': "\<forall>i<c0 + 1. a1[c0 := Some p] ! i = a2[c0 := Some p] ! i \<and>
        b1[c0 := Some p] ! i = b2[c0 := Some p] ! i"
      using ag l True[unfolded te1_def] by (auto simp: nth_list_update less_Suc_eq)
    from True[unfolded te1_def] have cN: "c0 + 1 \<le> N" by simp
    have "parse_row sm N D buf cur en s2 e2 = (c, col, a2[c0 := Some p], b2[c0 := Some p])"
      unfolding r2 eqs using t2 by simp
    with ag' cN l show ?thesis unfolding eqs by auto
  next
    case False
    then have t2: "\<not> te2" using te by simp
    from run[unfolded r1] False have eqs: "c = c'" "col = c0" "s1' = a1" "e1' = b1"
      by simp_all
    have "parse_row sm N D buf cur en s2 e2 = (c, col, a2, b2)"
      unfolding r2 eqs using t2 by simp
    with ag c0 l show ?thesis unfolding eqs by auto
  qed
qed

lemma make_fields_agree:
  "\<forall>i<N. s1 ! i = s2 ! i \<and> e1 ! i = e2 ! i \<Longrightarrow> make_fields N s1 e1 = make_fields N s2 e2"
  by (simp add: make_fields_def)


lemma chunk_step_out:
  assumes len: "length s = N" "length e = N"
  shows "\<exists>s' e'. chunk_step sm N D buf en (cur, cnt, s, e, calls) =
      (fst (step_out sm N D buf en cur), cnt + length (snd (step_out sm N D buf en cur)), s', e',
       calls @ snd (step_out sm N D buf en cur)) \<and> length s' = N \<and> length e' = N"
proof -
  let ?i = "replicate N (None :: slot)"
  consider (nl) "buf ! cur = CHR 0x0A" | (cr) "buf ! cur \<noteq> CHR 0x0A" "buf ! cur = CHR 0x0D"
    | (row) "buf ! cur \<noteq> CHR 0x0A" "buf ! cur \<noteq> CHR 0x0D" by blast
  then show ?thesis
  proof cases
    case nl
    then show ?thesis using len by (simp add: chunk_step_def step_out_def)
  next
    case cr
    then show ?thesis using len by (simp add: chunk_step_def step_out_def)
  next
    case row
    obtain c col s1 e1 where pr: "parse_row sm N D buf cur en s e = (c, col, s1, e1)"
      by (cases "parse_row sm N D buf cur en s e") auto
    have li: "length ?i = N" by simp
    from parse_row_agree[OF len(1) li len(2) li pr] obtain s2 e2 where
      pr2: "parse_row sm N D buf cur en ?i ?i = (c, col, s2, e2)" and
      l: "length s1 = N" "length e1 = N" and colN: "col \<le> N" and
      ag: "\<forall>i<col. s1 ! i = s2 ! i \<and> e1 ! i = e2 ! i" by blast
    show ?thesis
    proof (cases "col = N")
      case True
      with ag have "make_fields N s1 e1 = make_fields N s2 e2" by (intro make_fields_agree) simp
      with row pr pr2 True l show ?thesis by (simp add: chunk_step_def step_out_def)
    next
      case False
      with row pr pr2 l show ?thesis by (simp add: chunk_step_def step_out_def)
    qed
  qed
qed

lemma parse_chunk_loop_rows:
  assumes "length s = N" "length e = N"
  shows "\<exists>c' s' e'. parse_chunk_loop sm N D buf en (cur, cnt, s, e, calls) =
    (c', cnt + length (rows sm N D buf cur en), s', e', calls @ rows sm N D buf cur en)"
  using assms
proof (induction "en - cur" arbitrary: cur cnt s e calls rule: less_induct)
  case less
  let ?i = "replicate N (None :: slot)"
  show ?case
  proof (cases "cur < en")
    case False
    then have "\<And>st. fst st = cur \<Longrightarrow> parse_chunk_loop sm N D buf en st = st"
      by (subst parse_chunk_loop.simps) simp
    then show ?thesis by (simp add: rows_def parse_chunk_def)
  next
    case True
    let ?so = "step_out sm N D buf en cur"
    from step_out_cursor[OF True] have adv: "cur < fst ?so" "fst ?so \<le> en" by auto
    then have m: "en - fst ?so < en - cur" using True by arith
    have li: "length ?i = N" by simp
    from chunk_step_out[OF li li, of sm D buf en cur 0 "[]"] obtain a b where
      st0: "chunk_step sm N D buf en (cur, 0, ?i, ?i, []) = (fst ?so, length (snd ?so), a, b, snd ?so)"
      and lab: "length a = N" "length b = N" by auto
    from less.hyps[OF m lab, of "length (snd ?so)" "snd ?so"] obtain c0 a0 b0 where
      l0: "parse_chunk_loop sm N D buf en (fst ?so, length (snd ?so), a, b, snd ?so) =
        (c0, length (snd ?so) + length (rows sm N D buf (fst ?so) en), a0, b0,
         snd ?so @ rows sm N D buf (fst ?so) en)" by blast
    have "parse_chunk_loop sm N D buf en (cur, 0, ?i, ?i, []) =
        parse_chunk_loop sm N D buf en (fst ?so, length (snd ?so), a, b, snd ?so)"
      using True st0 by (subst parse_chunk_loop.simps) simp
    with l0 have unf: "rows sm N D buf cur en = snd ?so @ rows sm N D buf (fst ?so) en"
      by (simp add: rows_def parse_chunk_def)
    from chunk_step_out[OF less.prems, of sm D buf en cur cnt calls] obtain s1 e1 where
      st1: "chunk_step sm N D buf en (cur, cnt, s, e, calls) =
        (fst ?so, cnt + length (snd ?so), s1, e1, calls @ snd ?so)"
      and l1: "length s1 = N" "length e1 = N" by auto
    from less.hyps[OF m l1, of "cnt + length (snd ?so)" "calls @ snd ?so"] obtain c2 a2 b2 where
      l2: "parse_chunk_loop sm N D buf en (fst ?so, cnt + length (snd ?so), s1, e1, calls @ snd ?so) =
        (c2, cnt + length (snd ?so) + length (rows sm N D buf (fst ?so) en), a2, b2,
         (calls @ snd ?so) @ rows sm N D buf (fst ?so) en)" by blast
    have "parse_chunk_loop sm N D buf en (cur, cnt, s, e, calls) =
        parse_chunk_loop sm N D buf en (fst ?so, cnt + length (snd ?so), s1, e1, calls @ snd ?so)"
      using True st1 by (subst parse_chunk_loop.simps) simp
    with l2 unf show ?thesis by simp
  qed
qed

lemma rows_unfold:
  "cur < en \<Longrightarrow> rows sm N D buf cur en =
    snd (step_out sm N D buf en cur) @ rows sm N D buf (fst (step_out sm N D buf en cur)) en"
proof -
  assume lt: "cur < en"
  let ?i = "replicate N (None :: slot)"
  let ?so = "step_out sm N D buf en cur"
  have li: "length ?i = N" by simp
  from chunk_step_out[OF li li, of sm D buf en cur 0 "[]"] obtain a b where
    st0: "chunk_step sm N D buf en (cur, 0, ?i, ?i, []) = (fst ?so, length (snd ?so), a, b, snd ?so)"
    and lab: "length a = N" "length b = N" by auto
  from parse_chunk_loop_rows[OF lab, of sm D buf en "fst ?so" "length (snd ?so)" "snd ?so"]
  obtain c0 a0 b0 where
    l0: "parse_chunk_loop sm N D buf en (fst ?so, length (snd ?so), a, b, snd ?so) =
      (c0, length (snd ?so) + length (rows sm N D buf (fst ?so) en), a0, b0,
       snd ?so @ rows sm N D buf (fst ?so) en)" by blast
  have "parse_chunk_loop sm N D buf en (cur, 0, ?i, ?i, []) =
      parse_chunk_loop sm N D buf en (fst ?so, length (snd ?so), a, b, snd ?so)"
    using lt st0 by (subst parse_chunk_loop.simps) simp
  with l0 show ?thesis by (simp add: rows_def parse_chunk_def)
qed

lemma rows_empty: "\<not> cur < en \<Longrightarrow> rows sm N D buf cur en = []"
  by (simp add: rows_def parse_chunk_def parse_chunk_loop.simps[of sm N D buf en])

lemma parse_chunk_rows:
  "parse_chunk sm N D buf cur en = (length (rows sm N D buf cur en), rows sm N D buf cur en)"
proof -
  have li: "length (replicate N (None :: slot)) = N" by simp
  from parse_chunk_loop_rows[OF li li, of sm D buf en cur 0 "[]"]
  show ?thesis by (auto simp: parse_chunk_def)
qed


lemma find_newline_first:
  "first_match is_newline buf cur len (find_newline sm buf cur len)"
  unfolding find_newline_def by (rule scan_first)

lemma find_newline_local:
  assumes "cur < m" "m \<le> en" "buf ! (m - 1) = CHR 0x0A"
  shows "find_newline sm buf cur (en - cur) = find_newline sm buf cur (m - cur) \<and>
    cur + find_newline sm buf cur (m - cur) < m"
proof -
  let ?r = "find_newline sm buf cur (m - cur)"
  have fm: "first_match is_newline buf cur (m - cur) ?r" by (rule find_newline_first)
  have lt: "?r < m - cur"
  proof (rule ccontr)
    assume "\<not> ?r < m - cur"
    with fm have "\<forall>j<m - cur. \<not> is_newline (buf ! (cur + j))"
      by (auto simp: first_match_def)
    moreover have "m - 1 - cur < m - cur" "cur + (m - 1 - cur) = m - 1" using assms(1) by auto
    ultimately have "\<not> is_newline (buf ! (m - 1))" by metis
    with assms(3) show False by (simp add: is_newline_def)
  qed
  with fm have "first_match is_newline buf cur (en - cur) ?r"
    using assms(2) by (auto simp: first_match_def)
  from first_match_unique[OF find_newline_first this] lt show ?thesis by simp
qed

lemma parse_row_local:
  assumes "cur < m" "m \<le> en" "buf ! (m - 1) = CHR 0x0A"
  shows "parse_row sm N D buf cur en s e = parse_row sm N D buf cur m s e \<and>
    fst (parse_row sm N D buf cur m s e) \<le> m"
proof -
  from find_newline_local[OF assms, of sm] have
    eq: "find_newline sm buf cur (en - cur) = find_newline sm buf cur (m - cur)" and
    lt: "cur + find_newline sm buf cur (m - cur) < m" by simp_all
  from lt assms(2) have lt2: "cur + find_newline sm buf cur (m - cur) < en" by simp
  show ?thesis
    unfolding parse_row_def Let_def eq using lt lt2 by (simp split: prod.splits)
qed

lemma skip_cr_local:
  assumes "cur < m" "m \<le> en" "buf ! (m - 1) = CHR 0x0A" "buf ! cur = CHR 0x0D"
  shows "skip_cr buf cur en = skip_cr buf cur m \<and> skip_cr buf cur m \<le> m"
proof -
  from assms(3,4) have "cur \<noteq> m - 1" by auto
  with assms(1) have "cur + 1 < m" by arith
  with assms(2) show ?thesis by (auto simp: skip_cr_def Let_def)
qed

lemma step_out_local:
  assumes "cur < m" "m \<le> en" "buf ! (m - 1) = CHR 0x0A"
  shows "step_out sm N D buf en cur = step_out sm N D buf m cur \<and>
    fst (step_out sm N D buf m cur) \<le> m"
proof -
  let ?i = "replicate N (None :: slot)"
  consider (nl) "buf ! cur = CHR 0x0A" | (cr) "buf ! cur \<noteq> CHR 0x0A" "buf ! cur = CHR 0x0D"
    | (row) "buf ! cur \<noteq> CHR 0x0A" "buf ! cur \<noteq> CHR 0x0D" by blast
  then show ?thesis
  proof cases
    case nl
    with assms(1) show ?thesis by (simp add: step_out_def chunk_step_def)
  next
    case cr
    with skip_cr_local[OF assms cr(2)] show ?thesis by (simp add: step_out_def chunk_step_def)
  next
    case row
    from parse_row_local[OF assms, of sm N D ?i ?i] have
      eq: "parse_row sm N D buf cur en ?i ?i = parse_row sm N D buf cur m ?i ?i" and
      le: "fst (parse_row sm N D buf cur m ?i ?i) \<le> m" by simp_all
    obtain c col s1 e1 where pr: "parse_row sm N D buf cur m ?i ?i = (c, col, s1, e1)"
      by (cases "parse_row sm N D buf cur m ?i ?i") auto
    with row eq le show ?thesis by (simp add: step_out_def chunk_step_def)
  qed
qed

lemma rows_split:
  assumes "cur \<le> m" "m \<le> en" "m = en \<or> buf ! (m - 1) = CHR 0x0A"
  shows "rows sm N D buf cur en = rows sm N D buf cur m @ rows sm N D buf m en"
  using assms
proof (induction "m - cur" arbitrary: cur rule: less_induct)
  case less
  show ?case
  proof (cases "cur < m \<and> m < en")
    case False
    then have "cur = m \<or> m = en" using less.prems by auto
    then show ?thesis by (auto simp: rows_empty)
  next
    case True
    with less.prems have nl: "buf ! (m - 1) = CHR 0x0A" and lt: "cur < m" and le: "m \<le> en"
      by auto
    let ?so = "step_out sm N D buf m cur"
    from step_out_local[OF lt le nl, of sm N D] have
      eq: "step_out sm N D buf en cur = ?so" and b: "fst ?so \<le> m" by simp_all
    from step_out_cursor[OF lt, of sm N D buf] have adv: "cur < fst ?so" by simp
    then have m: "m - fst ?so < m - cur" using lt by arith
    from lt le have lt2: "cur < en" by simp
    have "rows sm N D buf cur en = snd ?so @ rows sm N D buf (fst ?so) en"
      using rows_unfold[OF lt2, of sm N D buf] eq by simp
    also have "rows sm N D buf (fst ?so) en =
        rows sm N D buf (fst ?so) m @ rows sm N D buf m en"
      by (rule less.hyps[OF m b le less.prems(3)])
    finally show ?thesis using rows_unfold[OF lt, of sm N D buf] by simp
  qed
qed


lemma next_boundary_props:
  assumes "cs \<le> dend"
  shows "cs \<le> next_boundary sm buf dend csz cs \<and> next_boundary sm buf dend csz cs \<le> dend \<and>
    (next_boundary sm buf dend csz cs = dend \<or>
     buf ! (next_boundary sm buf dend csz cs - 1) = CHR 0x0A)"
proof (cases "cs + csz \<ge> dend")
  case True
  with assms show ?thesis by (simp add: next_boundary_def)
next
  case False
  let ?nl = "find_newline sm buf (cs + csz) (dend - (cs + csz))"
  have fm: "first_match is_newline buf (cs + csz) (dend - (cs + csz)) ?nl"
    by (rule find_newline_first)
  then have le: "?nl \<le> dend - (cs + csz)" by (simp add: first_match_def)
  show ?thesis
  proof (cases "cs + csz + ?nl < dend")
    case True
    then have "?nl < dend - (cs + csz)" by arith
    with fm have "buf ! (cs + csz + ?nl) = CHR 0x0A" by (simp add: first_match_def is_newline_def)
    with True False show ?thesis by (simp add: next_boundary_def Let_def)
  next
    case nlt: False
    with le False have "cs + csz + ?nl = dend" by arith
    with nlt False assms show ?thesis by (simp add: next_boundary_def Let_def)
  qed
qed

lemma chunk_loop_rows:
  assumes "cs \<le> dend"
    and "chunk_loop sm buf dend K csz (i, cs, chunks) = (i', cs', chunks')"
  shows "cs' \<le> dend \<and>
    recs sm N D buf chunks' @ rows sm N D buf cs' dend =
    recs sm N D buf chunks @ rows sm N D buf cs dend"
  using assms
proof (induction sm buf dend K csz "(i, cs, chunks)" arbitrary: i cs chunks
    rule: chunk_loop.induct)
  case (1 sm buf dend K csz i cs chunks)
  show ?case
  proof (cases "i < K - 1 \<and> cs < dend")
    case False
    have "chunk_loop sm buf dend K csz (i, cs, chunks) = (i, cs, chunks)"
      by (subst chunk_loop.simps) (simp only: False if_False)
    with "1.prems" show ?thesis by simp
  next
    case True
    let ?b = "next_boundary sm buf dend csz cs"
    from next_boundary_props[OF "1.prems"(1), of sm buf csz] have
      b: "cs \<le> ?b" "?b \<le> dend" "?b = dend \<or> buf ! (?b - 1) = CHR 0x0A" by simp_all
    have "chunk_loop sm buf dend K csz (i, cs, chunks) =
        chunk_loop sm buf dend K csz (i + 1, ?b, chunks @ [(cs, ?b)])"
      using True by (subst chunk_loop.simps) (simp add: Let_def)
    with "1.prems"(2) have run:
      "chunk_loop sm buf dend K csz (i + 1, ?b, chunks @ [(cs, ?b)]) = (i', cs', chunks')"
      by simp
    from "1.hyps"[OF True refl b(2) run] have
      ih: "cs' \<le> dend" "recs sm N D buf chunks' @ rows sm N D buf cs' dend =
        recs sm N D buf (chunks @ [(cs, ?b)]) @ rows sm N D buf ?b dend" by simp_all
    have "recs sm N D buf (chunks @ [(cs, ?b)]) @ rows sm N D buf ?b dend =
        recs sm N D buf chunks @ (rows sm N D buf cs ?b @ rows sm N D buf ?b dend)"
      by (simp add: recs_def)
    also have "rows sm N D buf cs ?b @ rows sm N D buf ?b dend = rows sm N D buf cs dend"
      by (rule rows_split[OF b, symmetric])
    finally show ?thesis using ih by simp
  qed
qed

lemma foldl_counts: "foldl (\<lambda>t res. t + fst res) (a :: nat) xs = a + sum_list (map fst xs)"
  by (induction xs arbitrary: a) simp_all

lemma for_each_parallel_rows:
  "fst (for_each_parallel sm N D p) = sum_list (map length (snd (for_each_parallel sm N D p))) \<and>
   concat (snd (for_each_parallel sm N D p)) =
     rows sm N D (mapped (p_source p)) (p_data p) (p_data p + p_size p)"
proof (cases "p_size p = 0")
  case True
  then show ?thesis by (simp add: for_each_parallel_def rows_empty)
next
  case False
  let ?buf = "mapped (p_source p)"
  let ?dend = "p_data p + p_size p"
  obtain i cs chunks where cl: "chunk_loop sm ?buf ?dend (p_num_threads p)
      (p_size p div p_num_threads p) (0, p_data p, []) = (i, cs, chunks)"
    by (cases "chunk_loop sm ?buf ?dend (p_num_threads p)
      (p_size p div p_num_threads p) (0, p_data p, [])") auto
  let ?chunks1 = "if cs < ?dend then chunks @ [(cs, ?dend)] else chunks"
  have le: "p_data p \<le> ?dend" by simp
  from chunk_loop_rows[OF le cl, of N D] have
    inv: "recs sm N D ?buf chunks @ rows sm N D ?buf cs ?dend = rows sm N D ?buf (p_data p) ?dend"
    by (simp add: recs_def)
  have r1: "recs sm N D ?buf ?chunks1 = rows sm N D ?buf (p_data p) ?dend"
    using inv by (auto simp: recs_def rows_empty)
  have pc: "\<And>chs. map (\<lambda>(s, e). parse_chunk sm N D ?buf s e) chs =
      map (\<lambda>(s, e). (length (rows sm N D ?buf s e), rows sm N D ?buf s e)) chs"
    by (simp add: parse_chunk_rows)
  have res: "for_each_parallel sm N D p =
    (foldl (\<lambda>t res. t + fst res) 0 (map (\<lambda>(s, e). parse_chunk sm N D ?buf s e) ?chunks1),
     map snd (map (\<lambda>(s, e). parse_chunk sm N D ?buf s e) ?chunks1))"
    using False cl by (simp add: for_each_parallel_def Let_def)
  have sn: "map snd (map (\<lambda>(s, e). parse_chunk sm N D ?buf s e) ?chunks1) =
      map (\<lambda>(s, e). rows sm N D ?buf s e) ?chunks1"
    unfolding pc by (simp add: comp_def case_prod_unfold)
  have fs: "map fst (map (\<lambda>(s, e). parse_chunk sm N D ?buf s e) ?chunks1) =
      map length (map (\<lambda>(s, e). rows sm N D ?buf s e) ?chunks1)"
    unfolding pc by (simp add: comp_def case_prod_unfold)
  show ?thesis
    unfolding res using r1 by (simp only: fst_conv snd_conv foldl_counts sn fs recs_def) simp
qed

section \<open>The single-threaded reader against the parallel reader\<close>

lemma raw_step_out:
  assumes en: "enabled EP \<or> row_full sm N D (mapped (r_source r)) (r_end r) (r_current r)"
    and len: "length s = N" "length e = N"
  shows "\<exists>r' s' e' cs. raw_step sm N D EP (r, cnt, s, e, calls) =
      (r', cnt + length cs, s', e', calls @ cs) \<and>
    map (\<lambda>(a, b). make_fields N a b) cs =
      snd (step_out sm N D (mapped (r_source r)) (r_end r) (r_current r)) \<and>
    r_current r' = fst (step_out sm N D (mapped (r_source r)) (r_end r) (r_current r)) \<and>
    r_end r' = r_end r \<and> r_source r' = r_source r \<and> length s' = N \<and> length e' = N"
proof -
  let ?i = "replicate N (None :: slot)"
  let ?buf = "mapped (r_source r)"
  let ?cur = "r_current r"
  let ?r1 = "if track_line EP then r\<lparr>r_line_number := r_line_number r + 1\<rparr> else r"
  consider (nl) "?buf ! ?cur = CHR 0x0A" | (cr) "?buf ! ?cur \<noteq> CHR 0x0A" "?buf ! ?cur = CHR 0x0D"
    | (row) "?buf ! ?cur \<noteq> CHR 0x0A" "?buf ! ?cur \<noteq> CHR 0x0D" by blast
  then show ?thesis
  proof cases
    case nl
    then have "raw_step sm N D EP (r, cnt, s, e, calls) =
      ((if track_line EP then r\<lparr>r_line_number := r_line_number r + 1\<rparr> else r)
        \<lparr>r_current := ?cur + 1\<rparr>, cnt + length ([] :: (slot list \<times> slot list) list), s, e,
        calls @ [])"
      by (simp add: raw_step_def Let_def)
    moreover have "step_out sm N D ?buf (r_end r) ?cur = (?cur + 1, [])"
      using nl by (simp add: step_out_def chunk_step_def)
    ultimately show ?thesis using len
      by (intro exI[of _ "?r1\<lparr>r_current := ?cur + 1\<rparr>"] exI[of _ s] exI[of _ e]
          exI[of _ "[] :: (slot list \<times> slot list) list"]) simp
  next
    case cr
    then have "raw_step sm N D EP (r, cnt, s, e, calls) =
      ((if track_line EP then r\<lparr>r_line_number := r_line_number r + 1\<rparr> else r)
        \<lparr>r_current := skip_cr ?buf ?cur (r_end r)\<rparr>,
        cnt + length ([] :: (slot list \<times> slot list) list), s, e, calls @ [])"
      by (simp add: raw_step_def Let_def)
    moreover have "step_out sm N D ?buf (r_end r) ?cur = (skip_cr ?buf ?cur (r_end r), [])"
      using cr by (simp add: step_out_def chunk_step_def)
    ultimately show ?thesis using len
      by (intro exI[of _ "?r1\<lparr>r_current := skip_cr ?buf ?cur (r_end r)\<rparr>"] exI[of _ s]
          exI[of _ e] exI[of _ "[] :: (slot list \<times> slot list) list"]) simp
  next
    case row
    obtain c col s1 e1 where pr: "parse_row sm N D ?buf ?cur (r_end r) s e = (c, col, s1, e1)"
      by (cases "parse_row sm N D ?buf ?cur (r_end r) s e") auto
    have li: "length ?i = N" by simp
    from parse_row_agree[OF len(1) li len(2) li pr] obtain s2 e2 where
      pr2: "parse_row sm N D ?buf ?cur (r_end r) ?i ?i = (c, col, s2, e2)" and
      l: "length s1 = N" "length e1 = N" and colN: "col \<le> N" and
      ag: "\<forall>i<col. s1 ! i = s2 ! i \<and> e1 ! i = e2 ! i" by blast
    let ?r1 = "if track_line EP then r\<lparr>r_line_number := r_line_number r + 1\<rparr> else r"
    show ?thesis
    proof (cases "col = N")
      case True
      with ag have mk: "make_fields N s1 e1 = make_fields N s2 e2"
        by (intro make_fields_agree) simp
      have "raw_step sm N D EP (r, cnt, s, e, calls) =
        (?r1\<lparr>r_current := c\<rparr>, cnt + length [(s1, e1)], s1, e1, calls @ [(s1, e1)])"
        using row pr True by (simp add: raw_step_def Let_def)
      moreover have "step_out sm N D ?buf (r_end r) ?cur = (c, [make_fields N s2 e2])"
        using row pr2 True by (simp add: step_out_def chunk_step_def)
      ultimately show ?thesis using l mk
        by (intro exI[of _ "?r1\<lparr>r_current := c\<rparr>"] exI[of _ s1] exI[of _ e1]
            exI[of _ "[(s1, e1)]"]) simp
    next
      case False
      from False row pr2 have "\<not> row_full sm N D ?buf (r_end r) ?cur"
        by (simp add: row_full_def)
      with en have en: "enabled EP" by simp
      have "raw_step sm N D EP (r, cnt, s, e, calls) =
        (?r1\<lparr>r_current := c,
            r_last_error := \<lparr>code = ColumnCountMismatch,
              line = (if track_line EP then r_line_number (?r1\<lparr>r_current := c\<rparr>) else 0),
              column = of_nat col\<rparr>\<rparr>,
         cnt + length ([] :: (slot list \<times> slot list) list), s1, e1, calls @ [])"
        using row pr False en by (simp add: raw_step_def Let_def)
      moreover have "step_out sm N D ?buf (r_end r) ?cur = (c, [])"
        using row pr2 False by (simp add: step_out_def chunk_step_def)
      ultimately show ?thesis using l
        by (intro exI[of _ "?r1\<lparr>r_current := c,
            r_last_error := \<lparr>code = ColumnCountMismatch,
              line = (if track_line EP then r_line_number (?r1\<lparr>r_current := c\<rparr>) else 0),
              column = of_nat col\<rparr>\<rparr>"] exI[of _ s1] exI[of _ e1]
            exI[of _ "[] :: (slot list \<times> slot list) list"]) simp
    qed
  qed
qed

lemma for_each_raw_loop_rows:
  assumes "enabled EP \<or> all_rows_full sm N D (mapped (r_source r)) (r_current r) (r_end r)"
    "length s = N" "length e = N"
  shows "\<exists>r' s' e' cs. for_each_raw_loop sm N D EP (r, cnt, s, e, calls) =
      (r', cnt + length cs, s', e', calls @ cs) \<and>
    map (\<lambda>(a, b). make_fields N a b) cs =
      rows sm N D (mapped (r_source r)) (r_current r) (r_end r)"
  using assms
proof (induction "r_end r - r_current r" arbitrary: r cnt s e calls rule: less_induct)
  case less
  let ?buf = "mapped (r_source r)"
  show ?case
  proof (cases "r_current r < r_end r")
    case False
    have "for_each_raw_loop sm N D EP (r, cnt, s, e, calls) = (r, cnt, s, e, calls)"
      using False by (subst for_each_raw_loop.simps) simp
    with False show ?thesis
      by (intro exI[of _ r] exI[of _ s] exI[of _ e]
          exI[of _ "[] :: (slot list \<times> slot list) list"]) (simp add: rows_empty)
  next
    case True
    let ?so = "step_out sm N D ?buf (r_end r) (r_current r)"
    from less.prems(1) True have
      rf: "enabled EP \<or> row_full sm N D ?buf (r_end r) (r_current r)" and
      af: "enabled EP \<or> all_rows_full sm N D ?buf (fst ?so) (r_end r)"
      by (auto simp: all_rows_full.simps[of sm N D ?buf "r_current r" "r_end r"])
    from raw_step_out[OF rf less.prems(2,3), of cnt calls] obtain r1 s1 e1 cs1 where
      st: "raw_step sm N D EP (r, cnt, s, e, calls) = (r1, cnt + length cs1, s1, e1, calls @ cs1)"
      and mk: "map (\<lambda>(a, b). make_fields N a b) cs1 = snd ?so"
      and r1: "r_current r1 = fst ?so" "r_end r1 = r_end r" "r_source r1 = r_source r"
      and l1: "length s1 = N" "length e1 = N" by blast
    from step_out_cursor[OF True, of sm N D ?buf] r1 have
      m: "r_end r1 - r_current r1 < r_end r - r_current r" using True by simp arith
    from af r1 have af1:
      "enabled EP \<or> all_rows_full sm N D (mapped (r_source r1)) (r_current r1) (r_end r1)"
      by simp
    from less.hyps[OF m af1 l1, of "cnt + length cs1" "calls @ cs1"]
    obtain r2 s2 e2 cs2 where
      lp: "for_each_raw_loop sm N D EP (r1, cnt + length cs1, s1, e1, calls @ cs1) =
        (r2, cnt + length cs1 + length cs2, s2, e2, (calls @ cs1) @ cs2)"
      and mk2: "map (\<lambda>(a, b). make_fields N a b) cs2 =
        rows sm N D (mapped (r_source r1)) (r_current r1) (r_end r1)" by blast
    have "for_each_raw_loop sm N D EP (r, cnt, s, e, calls) =
        for_each_raw_loop sm N D EP (r1, cnt + length cs1, s1, e1, calls @ cs1)"
      using True st by (subst for_each_raw_loop.simps) simp
    with lp have "for_each_raw_loop sm N D EP (r, cnt, s, e, calls) =
        (r2, cnt + length (cs1 @ cs2), s2, e2, calls @ (cs1 @ cs2))" by simp
    moreover have "map (\<lambda>(a, b). make_fields N a b) (cs1 @ cs2) =
        rows sm N D ?buf (r_current r) (r_end r)"
      using mk mk2 r1 rows_unfold[OF True, of sm N D ?buf] by simp
    ultimately show ?thesis by blast
  qed
qed

lemma for_each_rows:
  assumes "enabled EP \<or> all_rows_full sm N D (mapped (r_source r)) (r_current r) (r_end r)"
  shows "fst (snd (for_each sm N D EP r)) =
      rows sm N D (mapped (r_source r)) (r_current r) (r_end r) \<and>
    fst (for_each sm N D EP r) = length (fst (snd (for_each sm N D EP r)))"
proof -
  have li: "length (replicate N (None :: slot)) = N" by simp
  from for_each_raw_loop_rows[OF assms li li, of 0 "[]"] obtain r' s' e' cs where
    "for_each_raw_loop sm N D EP (r, 0, replicate N None, replicate N None, []) =
      (r', 0 + length cs, s', e', [] @ cs)"
    "map (\<lambda>(a, b). make_fields N a b) cs =
      rows sm N D (mapped (r_source r)) (r_current r) (r_end r)" by blast
  moreover from this(2) have "length cs =
      length (rows sm N D (mapped (r_source r)) (r_current r) (r_end r))"
    by (metis length_map)
  ultimately show ?thesis by (simp add: for_each_def for_each_raw_def)
qed

lemma init_same_range:
  "mapped (r_source (Reader_init sm N D EP f skip)) =
     mapped (p_source (ParallelReader_init sm N D f K skip)) \<and>
   r_current (Reader_init sm N D EP f skip) = p_data (ParallelReader_init sm N D f K skip) \<and>
   r_end (Reader_init sm N D EP f skip) =
     p_data (ParallelReader_init sm N D f K skip) + p_size (ParallelReader_init sm N D f K skip)"
proof (cases "skip \<and> map_valid (MmapSource_open f)")
  case False
  then show ?thesis by (auto simp: Reader_init_def ParallelReader_init_def Let_def)
next
  case True
  let ?buf = "mapped (MmapSource_open f)"
  let ?n = "map_size (MmapSource_open f)"
  let ?nl = "find_newline sm ?buf 0 ?n"
  let ?d = "if ?nl < ?n then ?nl + 1 else ?n"
  from True have pos: "\<not> ?n \<le> 0"
    by (auto simp: MmapSource_open_def split: file_result.splits)
  have r: "mapped (r_source (Reader_init sm N D EP f skip)) = ?buf"
    "r_current (Reader_init sm N D EP f skip) = ?d"
    "r_end (Reader_init sm N D EP f skip) = ?n"
    using True pos
    by (simp_all add: Reader_init_def parse_header_def Let_def case_prod_unfold)
  have p: "mapped (p_source (ParallelReader_init sm N D f K skip)) = ?buf"
    "p_data (ParallelReader_init sm N D f K skip) = ?d"
    "p_size (ParallelReader_init sm N D f K skip) = ?n - ?d"
    using True
    by (simp_all add: ParallelReader_init_def Let_def case_prod_unfold)
  have "?d \<le> ?n" by simp
  with r p show ?thesis by simp
qed

text \<open>
  Claim C3, as the specification states it, compares the parallel reader with "the
  single-threaded reader" over any file. The single-threaded reader's error policy is a
  template parameter, and with the policy off (the default, and what \<open>make_reader\<close>
  returns) it calls the callback on a row with fewer than \<open>N\<close> fields, which the parallel
  workers skip: on the file "a,b\n1\n" with \<open>N = 2\<close> and one worker the parallel reader makes no
  call and the unchecked reader makes one.
\<close>

theorem parallel_vs_unchecked_reader_counterexample:
  "mset (concat (snd (for_each_parallel Scalar 2 (CHR '','')
      (ParallelReader_init Scalar 2 (CHR '','') (Mapped (''a,b'' @ [CHR 0x0A] @ ''1'' @ [CHR 0x0A])) 1 True))))
   \<noteq> mset (fst (snd (for_each Scalar 2 (CHR '','') NoErrorCheck
      (Reader_init Scalar 2 (CHR '','') NoErrorCheck (Mapped (''a,b'' @ [CHR 0x0A] @ ''1'' @ [CHR 0x0A])) True))))"
proof -
  have a: "concat (snd (for_each_parallel Scalar 2 (CHR '','')
      (ParallelReader_init Scalar 2 (CHR '','') (Mapped (''a,b'' @ [CHR 0x0A] @ ''1'' @ [CHR 0x0A])) 1 True))) = []"
    by code_simp
  have b: "fst (snd (for_each Scalar 2 (CHR '','') NoErrorCheck
      (Reader_init Scalar 2 (CHR '','') NoErrorCheck (Mapped (''a,b'' @ [CHR 0x0A] @ ''1'' @ [CHR 0x0A])) True)))
    = [[\<lparr>f_begin = Some 4, f_end = Some 5\<rparr>, \<lparr>f_begin = None, f_end = None\<rparr>]]"
    by code_simp
  show ?thesis unfolding a b by simp
qed

text \<open>
  Claim C3, amended. For any input file and any worker count \<open>K \<ge> 1\<close>, the value
  \<open>for_each_parallel\<close> returns is the sum of the per-worker record counts, and the multiset of
  records (tuples of field slices) it delivers to the callback equals the multiset that the
  single-threaded reader delivers over the same file, whenever the single-threaded reader's
  error policy is enabled or every row of the data yields \<open>N\<close> fields (each line that is not
  empty leaves the row parser with \<^verbatim>\<open>col == Columns\<close>). With the policy off, the
  single-threaded reader also delivers the rows that yield fewer fields, which the workers
  skip. The file is any file that is opened and mapped, is empty or cannot be opened; when
  \<^verbatim>\<open>mmap\<close> itself fails on a file that is not empty, both readers are left with a null data
  pointer and a range that is not empty, and nothing is stated.
\<close>

theorem parallel_matches_single_threaded:
  assumes "1 \<le> K" and "\<not> map_failed file"
  shows "(enabled EP \<or>
      all_rows_full sm N D (mapped (r_source (Reader_init sm N D EP file skip_header)))
        (r_current (Reader_init sm N D EP file skip_header))
        (r_end (Reader_init sm N D EP file skip_header)) \<longrightarrow>
      mset (concat (snd (for_each_parallel sm N D (ParallelReader_init sm N D file K skip_header))))
        = mset (fst (snd (for_each sm N D EP (Reader_init sm N D EP file skip_header))))) \<and>
    fst (for_each_parallel sm N D (ParallelReader_init sm N D file K skip_header)) =
      sum_list (map length
        (snd (for_each_parallel sm N D (ParallelReader_init sm N D file K skip_header))))"
proof (intro conjI impI)
  let ?p = "ParallelReader_init sm N D file K skip_header"
  let ?r = "Reader_init sm N D EP file skip_header"
  from for_each_parallel_rows[of sm N D ?p] show
    "fst (for_each_parallel sm N D ?p) = sum_list (map length (snd (for_each_parallel sm N D ?p)))"
    by simp
  assume c: "enabled EP \<or>
    all_rows_full sm N D (mapped (r_source ?r)) (r_current ?r) (r_end ?r)"
  from for_each_parallel_rows[of sm N D ?p] have
    b: "concat (snd (for_each_parallel sm N D ?p)) =
      rows sm N D (mapped (p_source ?p)) (p_data ?p) (p_data ?p + p_size ?p)" by simp
  from for_each_rows[OF c] have
    "fst (snd (for_each sm N D EP ?r)) =
      rows sm N D (mapped (r_source ?r)) (r_current ?r) (r_end ?r)" by simp
  with init_same_range[of sm N D EP "file" skip_header K] b have
    "concat (snd (for_each_parallel sm N D ?p)) = fst (snd (for_each sm N D EP ?r))" by simp
  then show "mset (concat (snd (for_each_parallel sm N D ?p))) =
    mset (fst (snd (for_each sm N D EP ?r)))" by simp
qed

theorem parallel_matches_single_threaded_witness:
  "(1::nat) \<le> 2 \<and>
   \<not> map_failed (Mapped (''a,b'' @ [CHR 0x0A] @ ''1,2'' @ [CHR 0x0A] @ ''3,4'' @ [CHR 0x0A] @ ''5,6'' @ [CHR 0x0A])) \<and>
   all_rows_full Scalar 2 (CHR '','')
     (mapped (r_source (Reader_init Scalar 2 (CHR '','') NoErrorCheck
       (Mapped (''a,b'' @ [CHR 0x0A] @ ''1,2'' @ [CHR 0x0A] @ ''3,4'' @ [CHR 0x0A] @ ''5,6'' @ [CHR 0x0A])) True)))
     (r_current (Reader_init Scalar 2 (CHR '','') NoErrorCheck
       (Mapped (''a,b'' @ [CHR 0x0A] @ ''1,2'' @ [CHR 0x0A] @ ''3,4'' @ [CHR 0x0A] @ ''5,6'' @ [CHR 0x0A])) True))
     (r_end (Reader_init Scalar 2 (CHR '','') NoErrorCheck
       (Mapped (''a,b'' @ [CHR 0x0A] @ ''1,2'' @ [CHR 0x0A] @ ''3,4'' @ [CHR 0x0A] @ ''5,6'' @ [CHR 0x0A])) True)) \<and>
   mset (concat (snd (for_each_parallel Scalar 2 (CHR '','')
      (ParallelReader_init Scalar 2 (CHR '','')
        (Mapped (''a,b'' @ [CHR 0x0A] @ ''1,2'' @ [CHR 0x0A] @ ''3,4'' @ [CHR 0x0A] @ ''5,6'' @ [CHR 0x0A])) 2 True))))
   = mset (fst (snd (for_each Scalar 2 (CHR '','') NoErrorCheck
      (Reader_init Scalar 2 (CHR '','') NoErrorCheck
        (Mapped (''a,b'' @ [CHR 0x0A] @ ''1,2'' @ [CHR 0x0A] @ ''3,4'' @ [CHR 0x0A] @ ''5,6'' @ [CHR 0x0A])) True)))) \<and>
   enabled ErrorCheckBasic \<and>
   mset (concat (snd (for_each_parallel SSE2 2 (CHR '','')
      (ParallelReader_init SSE2 2 (CHR '','')
        (Mapped (''a,b'' @ [CHR 0x0A] @ ''1,2'' @ [CHR 0x0A] @ ''3'' @ [CHR 0x0A] @ ''4,5'' @ [CHR 0x0A])) 2 True))))
   = mset (fst (snd (for_each SSE2 2 (CHR '','') ErrorCheckBasic
      (Reader_init SSE2 2 (CHR '','') ErrorCheckBasic
        (Mapped (''a,b'' @ [CHR 0x0A] @ ''1,2'' @ [CHR 0x0A] @ ''3'' @ [CHR 0x0A] @ ''4,5'' @ [CHR 0x0A])) True)))) \<and>
   fst (for_each_parallel SSE2 2 (CHR '','')
      (ParallelReader_init SSE2 2 (CHR '','')
        (Mapped (''a,b'' @ [CHR 0x0A] @ ''1,2'' @ [CHR 0x0A] @ ''3'' @ [CHR 0x0A] @ ''4,5'' @ [CHR 0x0A])) 2 True)) = 2"
proof -
  let ?f = "Mapped (''a,b'' @ [CHR 0x0A] @ ''1,2'' @ [CHR 0x0A] @ ''3,4'' @ [CHR 0x0A] @ ''5,6'' @ [CHR 0x0A])"
  let ?g = "Mapped (''a,b'' @ [CHR 0x0A] @ ''1,2'' @ [CHR 0x0A] @ ''3'' @ [CHR 0x0A] @ ''4,5'' @ [CHR 0x0A])"
  have k: "(1::nat) \<le> 2" by simp
  have mf: "\<not> map_failed ?f" by (simp add: map_failed_def)
  have mg: "\<not> map_failed ?g" by (simp add: map_failed_def)
  have e: "enabled ErrorCheckBasic" by (simp add: ErrorCheckBasic_def)
  have full: "all_rows_full Scalar 2 (CHR '','')
     (mapped (r_source (Reader_init Scalar 2 (CHR '','') NoErrorCheck ?f True)))
     (r_current (Reader_init Scalar 2 (CHR '','') NoErrorCheck ?f True))
     (r_end (Reader_init Scalar 2 (CHR '','') NoErrorCheck ?f True))"
    by code_simp
  have t: "fst (for_each_parallel SSE2 2 (CHR '','')
      (ParallelReader_init SSE2 2 (CHR '','') ?g 2 True)) = 2"
    by code_simp
  have a: "mset (concat (snd (for_each_parallel Scalar 2 (CHR '','')
      (ParallelReader_init Scalar 2 (CHR '','') ?f 2 True))))
   = mset (fst (snd (for_each Scalar 2 (CHR '','') NoErrorCheck
      (Reader_init Scalar 2 (CHR '','') NoErrorCheck ?f True))))"
    by (rule parallel_matches_single_threaded[OF k mf, THEN conjunct1, THEN mp, OF disjI2, OF full])
  have b: "mset (concat (snd (for_each_parallel SSE2 2 (CHR '','')
      (ParallelReader_init SSE2 2 (CHR '','') ?g 2 True))))
   = mset (fst (snd (for_each SSE2 2 (CHR '','') ErrorCheckBasic
      (Reader_init SSE2 2 (CHR '','') ErrorCheckBasic ?g True))))"
    by (rule parallel_matches_single_threaded[OF k mg, THEN conjunct1, THEN mp, OF disjI1, OF e])
  from k mf full a e b t show ?thesis by (intro conjI)
qed


section \<open>The three scanner bodies give the same reader\<close>

lemma find_newline_scalar: "find_newline sm buf d l = find_newline Scalar buf d l"
  unfolding find_newline_def by (rule scan_scalar)

lemma find_field_end_scalar: "find_field_end sm buf d l c = find_field_end Scalar buf d l c"
  unfolding find_field_end_def by (rule scan_scalar)

lemma field_loop_scalar:
  "field_loop sm N D buf ee st = field_loop Scalar N D buf ee st"
proof (induction sm N D buf ee st rule: field_loop.induct)
  case (1 sm N D buf ee ptr col starts ends)
  show ?case
  proof (cases "col < N \<and> ptr < ee")
    case False
    have "field_loop sm N D buf ee (ptr, col, starts, ends) = (ptr, col, starts, ends)"
      by (subst field_loop.simps) (simp only: False if_False)
    moreover have "field_loop Scalar N D buf ee (ptr, col, starts, ends) = (ptr, col, starts, ends)"
      by (subst field_loop.simps) (simp only: False if_False)
    ultimately show ?thesis by simp
  next
    case True
    let ?ptr1 = "ptr + find_field_end sm buf ptr (ee - ptr) D"
    let ?ptr2 = "if ?ptr1 < ee \<and> buf ! ?ptr1 = D then ?ptr1 + 1 else ?ptr1"
    let ?st = "(?ptr2, col + 1, starts[col := Some ptr], ends[col := Some ?ptr1])"
    have a: "field_loop sm N D buf ee (ptr, col, starts, ends) = field_loop sm N D buf ee ?st"
      using True by (subst field_loop.simps) (simp add: Let_def)
    have b: "field_loop Scalar N D buf ee (ptr, col, starts, ends) = field_loop Scalar N D buf ee ?st"
      using True
      by (subst field_loop.simps) (simp add: Let_def find_field_end_scalar[of sm])
    from "1.IH"[OF True refl refl refl refl refl refl] a b show ?thesis by simp
  qed
qed

lemma header_loop_scalar:
  "header_loop sm N D buf ee st = header_loop Scalar N D buf ee st"
proof (induction sm N D buf ee st rule: header_loop.induct)
  case (1 sm N D buf ee ptr col names)
  show ?case
  proof (cases "col < N \<and> ptr < ee")
    case False
    have "header_loop sm N D buf ee (ptr, col, names) = (ptr, col, names)"
      by (subst header_loop.simps) (simp only: False if_False)
    moreover have "header_loop Scalar N D buf ee (ptr, col, names) = (ptr, col, names)"
      by (subst header_loop.simps) (simp only: False if_False)
    ultimately show ?thesis by simp
  next
    case True
    let ?ptr1 = "ptr + find_field_end sm buf ptr (ee - ptr) D"
    let ?ptr2 = "if ?ptr1 < ee \<and> buf ! ?ptr1 = D then ?ptr1 + 1 else ?ptr1"
    let ?st = "(?ptr2, col + 1, names[col := \<lparr>sv_data = Some ptr, sv_size = ?ptr1 - ptr\<rparr>])"
    have a: "header_loop sm N D buf ee (ptr, col, names) = header_loop sm N D buf ee ?st"
      using True by (subst header_loop.simps) (simp add: Let_def)
    have b: "header_loop Scalar N D buf ee (ptr, col, names) = header_loop Scalar N D buf ee ?st"
      using True
      by (subst header_loop.simps) (simp add: Let_def find_field_end_scalar[of sm])
    from "1.IH"[OF True refl refl refl refl refl refl] a b show ?thesis by simp
  qed
qed

lemma parse_row_scalar:
  "parse_row sm N D buf cur en s e = parse_row Scalar N D buf cur en s e"
  unfolding parse_row_def
  by (simp only: find_newline_scalar[of sm] field_loop_scalar[of sm])

lemma raw_step_scalar: "raw_step sm N D EP st = raw_step Scalar N D EP st"
  unfolding raw_step_def by (simp only: parse_row_scalar[of sm])

lemma for_each_raw_loop_scalar:
  "for_each_raw_loop sm N D EP st = for_each_raw_loop Scalar N D EP st"
proof (induction sm N D EP st rule: for_each_raw_loop.induct)
  case (1 sm N D EP st)
  show ?case
  proof (cases "r_current (fst st) < r_end (fst st)")
    case False
    have "for_each_raw_loop sm N D EP st = st"
      using False by (subst for_each_raw_loop.simps) simp
    moreover have "for_each_raw_loop Scalar N D EP st = st"
      using False by (subst for_each_raw_loop.simps) simp
    ultimately show ?thesis by simp
  next
    case True
    have a: "for_each_raw_loop sm N D EP st = for_each_raw_loop sm N D EP (raw_step sm N D EP st)"
      using True by (subst for_each_raw_loop.simps) simp
    have b: "for_each_raw_loop Scalar N D EP st =
        for_each_raw_loop Scalar N D EP (raw_step sm N D EP st)"
      using True by (subst for_each_raw_loop.simps) (simp add: raw_step_scalar[of sm])
    from "1.IH"[OF True] a b show ?thesis by simp
  qed
qed

lemma for_each_scalar: "for_each sm N D EP r = for_each Scalar N D EP r"
  unfolding for_each_def for_each_raw_def by (simp only: for_each_raw_loop_scalar[of sm])

lemma parse_header_scalar: "parse_header sm N D EP r = parse_header Scalar N D EP r"
  unfolding parse_header_def
  by (simp only: find_newline_scalar[of sm] header_loop_scalar[of sm])

lemma Reader_init_scalar: "Reader_init sm N D EP f skip = Reader_init Scalar N D EP f skip"
  unfolding Reader_init_def by (simp only: parse_header_scalar[of sm])

lemma s3_scalar:
  "for_each Scalar 3 (CHR '','') ErrorCheckBasic
     (Reader_init Scalar 3 (CHR '','') ErrorCheckBasic
       (Mapped (''a,b,c'' @ [CHR 0x0A] @ ''1,2,3'' @ [CHR 0x0A] @ ''4,5'' @ [CHR 0x0A] @ ''6,7,8'' @ [CHR 0x0A])) True)
   = (2, [[\<lparr>f_begin = Some 6, f_end = Some 7\<rparr>, \<lparr>f_begin = Some 8, f_end = Some 9\<rparr>,
           \<lparr>f_begin = Some 10, f_end = Some 11\<rparr>],
          [\<lparr>f_begin = Some 16, f_end = Some 17\<rparr>, \<lparr>f_begin = Some 18, f_end = Some 19\<rparr>,
           \<lparr>f_begin = Some 20, f_end = Some 21\<rparr>]],
      \<lparr>r_source = \<lparr>mapped = ''a,b,c'' @ [CHR 0x0A] @ ''1,2,3'' @ [CHR 0x0A] @ ''4,5'' @ [CHR 0x0A] @ ''6,7,8'' @ [CHR 0x0A], map_size = 22, map_valid = True\<rparr>,
       r_current = 22, r_end = 22,
       r_column_names = [\<lparr>sv_data = Some 0, sv_size = 1\<rparr>, \<lparr>sv_data = Some 2, sv_size = 1\<rparr>,
          \<lparr>sv_data = Some 4, sv_size = 1\<rparr>],
       r_header_parsed = True,
       r_last_error = \<lparr>code = ColumnCountMismatch, line = 3, column = 2\<rparr>,
       r_line_number = 4\<rparr>)"
  by code_simp

text \<open>
  Claim C1. A single-threaded reader with \<open>N = 3\<close>, delimiter \<open>,\<close>, the Checked policy
  (\<open>ErrorCheckBasic\<close>) and \<open>skip_header = true\<close> over the input
  "a,b,c\n1,2,3\n4,5\n6,7,8\n": \<open>for_each\<close> calls its callback exactly twice and returns 2,
  the code of \<open>last_error()\<close> is \<open>ColumnCountMismatch\<close> and its line is 3 (counting from 1,
  the header being line 1). This holds with each of the three scanner bodies.
\<close>

theorem scenario_S3:
  "fst (for_each sm 3 (CHR '','') ErrorCheckBasic
     (Reader_init sm 3 (CHR '','') ErrorCheckBasic
       (Mapped (''a,b,c'' @ [CHR 0x0A] @ ''1,2,3'' @ [CHR 0x0A] @ ''4,5'' @ [CHR 0x0A] @ ''6,7,8'' @ [CHR 0x0A]))
       True)) = 2 \<and>
   length (fst (snd (for_each sm 3 (CHR '','') ErrorCheckBasic
     (Reader_init sm 3 (CHR '','') ErrorCheckBasic
       (Mapped (''a,b,c'' @ [CHR 0x0A] @ ''1,2,3'' @ [CHR 0x0A] @ ''4,5'' @ [CHR 0x0A] @ ''6,7,8'' @ [CHR 0x0A]))
       True)))) = 2 \<and>
   code (last_error ErrorCheckBasic (snd (snd (for_each sm 3 (CHR '','') ErrorCheckBasic
     (Reader_init sm 3 (CHR '','') ErrorCheckBasic
       (Mapped (''a,b,c'' @ [CHR 0x0A] @ ''1,2,3'' @ [CHR 0x0A] @ ''4,5'' @ [CHR 0x0A] @ ''6,7,8'' @ [CHR 0x0A]))
       True))))) = ColumnCountMismatch \<and>
   line (last_error ErrorCheckBasic (snd (snd (for_each sm 3 (CHR '','') ErrorCheckBasic
     (Reader_init sm 3 (CHR '','') ErrorCheckBasic
       (Mapped (''a,b,c'' @ [CHR 0x0A] @ ''1,2,3'' @ [CHR 0x0A] @ ''4,5'' @ [CHR 0x0A] @ ''6,7,8'' @ [CHR 0x0A]))
       True))))) = 3"
  unfolding for_each_scalar[of sm] Reader_init_scalar[of sm] s3_scalar
  by (simp add: last_error_def ErrorCheckBasic_def)

theorem scenario_S3_witness:
  "fst (for_each SSE2 3 (CHR '','') ErrorCheckBasic
     (Reader_init SSE2 3 (CHR '','') ErrorCheckBasic
       (Mapped (''a,b,c'' @ [CHR 0x0A] @ ''1,2,3'' @ [CHR 0x0A] @ ''4,5'' @ [CHR 0x0A] @ ''6,7,8'' @ [CHR 0x0A]))
       True)) = 2"
  using scenario_S3[of SSE2] by blast

section \<open>Column count mismatch on the early-termination surface\<close>

lemma until_step_last_error:
  "r_last_error (fst (fst (until_step sm N D EP cb st))) = r_last_error (fst st)"
proof -
  obtain r cnt s e calls u where st: "st = (r, cnt, s, e, calls, u)" by (cases st) auto
  show ?thesis
    unfolding st until_step_def Let_def
    by (simp add: case_prod_unfold)
qed

lemma until_loop_last_error:
  "r_last_error (fst (for_each_until_loop sm N D EP cb st)) = r_last_error (fst st)"
proof (induction sm N D EP cb st rule: for_each_until_loop.induct)
  case (1 sm N D EP cb st)
  show ?case
  proof (cases "r_current (fst st) < r_end (fst st)")
    case False
    have "for_each_until_loop sm N D EP cb st = st"
      using False by (subst for_each_until_loop.simps) simp
    then show ?thesis by simp
  next
    case True
    show ?thesis
    proof (cases "snd (until_step sm N D EP cb st)")
      case go: True
      have "for_each_until_loop sm N D EP cb st =
          for_each_until_loop sm N D EP cb (fst (until_step sm N D EP cb st))"
        using True go by (subst for_each_until_loop.simps) simp
      with "1.IH"[OF True go] until_step_last_error[of sm N D EP cb st] show ?thesis by simp
    next
      case stop: False
      have "for_each_until_loop sm N D EP cb st = fst (until_step sm N D EP cb st)"
        using True stop by (subst for_each_until_loop.simps) simp
      with until_step_last_error[of sm N D EP cb st] show ?thesis by simp
    qed
  qed
qed

text \<open>
  Claim C2 says that on each of \<open>for_each_raw\<close>, \<open>for_each\<close> and \<open>for_each_until\<close> a data row
  with \<open>col \<noteq> N\<close> under an enabled error policy records \<open>ColumnCountMismatch\<close> in
  \<open>last_error\<close>. \<open>for_each_until\<close> never writes \<open>last_error_\<close>: the reader's error
  information after the call is what it was before, whatever the input. On the Checked
  reader over "a,b,c\n4,5\n6,7,8\n" with a callback that always goes on, it skips the
  two-field row, returns 1 and leaves \<open>last_error\<close> at \<open>Ok\<close>, where \<open>for_each_raw\<close> on the same
  input records \<open>ColumnCountMismatch\<close> at line 2 with column count 2.
\<close>

theorem for_each_until_drops_mismatch:
  "r_last_error (snd (snd (snd (for_each_until sm N D EP cb u r)))) = r_last_error r \<and>
   fst (for_each_until Scalar 3 (CHR '','') ErrorCheckBasic (\<lambda>u fields. (True, u)) ()
     (Reader_init Scalar 3 (CHR '','') ErrorCheckBasic
       (Mapped (''a,b,c'' @ [CHR 0x0A] @ ''4,5'' @ [CHR 0x0A] @ ''6,7,8'' @ [CHR 0x0A])) True)) = 1 \<and>
   last_error ErrorCheckBasic (snd (snd (snd
     (for_each_until Scalar 3 (CHR '','') ErrorCheckBasic (\<lambda>u fields. (True, u)) ()
       (Reader_init Scalar 3 (CHR '','') ErrorCheckBasic
         (Mapped (''a,b,c'' @ [CHR 0x0A] @ ''4,5'' @ [CHR 0x0A] @ ''6,7,8'' @ [CHR 0x0A])) True)))))
     = \<lparr>code = Ok, line = 0, column = 0\<rparr> \<and>
   last_error ErrorCheckBasic (snd (snd
     (for_each_raw Scalar 3 (CHR '','') ErrorCheckBasic
       (Reader_init Scalar 3 (CHR '','') ErrorCheckBasic
         (Mapped (''a,b,c'' @ [CHR 0x0A] @ ''4,5'' @ [CHR 0x0A] @ ''6,7,8'' @ [CHR 0x0A])) True))))
     = \<lparr>code = ColumnCountMismatch, line = 2, column = 2\<rparr>"
proof -
  have g: "r_last_error (snd (snd (snd (for_each_until sm N D EP cb u r)))) = r_last_error r"
    using until_loop_last_error[of sm N D EP cb "(r, 0, replicate N None, replicate N None, [], u)"]
    by (simp add: for_each_until_def case_prod_unfold)
  have c: "fst (for_each_until Scalar 3 (CHR '','') ErrorCheckBasic (\<lambda>u fields. (True, u)) ()
     (Reader_init Scalar 3 (CHR '','') ErrorCheckBasic
       (Mapped (''a,b,c'' @ [CHR 0x0A] @ ''4,5'' @ [CHR 0x0A] @ ''6,7,8'' @ [CHR 0x0A])) True)) = 1 \<and>
   last_error ErrorCheckBasic (snd (snd (snd
     (for_each_until Scalar 3 (CHR '','') ErrorCheckBasic (\<lambda>u fields. (True, u)) ()
       (Reader_init Scalar 3 (CHR '','') ErrorCheckBasic
         (Mapped (''a,b,c'' @ [CHR 0x0A] @ ''4,5'' @ [CHR 0x0A] @ ''6,7,8'' @ [CHR 0x0A])) True)))))
     = \<lparr>code = Ok, line = 0, column = 0\<rparr> \<and>
   last_error ErrorCheckBasic (snd (snd
     (for_each_raw Scalar 3 (CHR '','') ErrorCheckBasic
       (Reader_init Scalar 3 (CHR '','') ErrorCheckBasic
         (Mapped (''a,b,c'' @ [CHR 0x0A] @ ''4,5'' @ [CHR 0x0A] @ ''6,7,8'' @ [CHR 0x0A])) True))))
     = \<lparr>code = ColumnCountMismatch, line = 2, column = 2\<rparr>"
    by code_simp
  from g c show ?thesis by (rule conjI)
qed

section \<open>One-shot iteration\<close>

lemma raw_loop_end:
  "r_current (fst st) \<le> r_end (fst st) \<Longrightarrow>
   r_current (fst (for_each_raw_loop sm N D EP st)) = r_end (fst (for_each_raw_loop sm N D EP st))"
proof (induction sm N D EP st rule: for_each_raw_loop.induct)
  case (1 sm N D EP st)
  show ?case
  proof (cases "r_current (fst st) < r_end (fst st)")
    case False
    have "for_each_raw_loop sm N D EP st = st"
      using False by (subst for_each_raw_loop.simps) simp
    with False "1.prems" show ?thesis by simp
  next
    case True
    from raw_step_cursor[OF True, of sm N D EP] have
      "r_current (fst (raw_step sm N D EP st)) \<le> r_end (fst (raw_step sm N D EP st))" by simp
    from "1.IH"[OF True this] have
      "r_current (fst (for_each_raw_loop sm N D EP (raw_step sm N D EP st))) =
       r_end (fst (for_each_raw_loop sm N D EP (raw_step sm N D EP st)))" .
    moreover have "for_each_raw_loop sm N D EP st =
        for_each_raw_loop sm N D EP (raw_step sm N D EP st)"
      using True by (subst for_each_raw_loop.simps) simp
    ultimately show ?thesis by simp
  qed
qed

lemma for_each_raw_end:
  "r_current r \<le> r_end r \<Longrightarrow>
   r_current (snd (snd (for_each_raw sm N D EP r))) = r_end (snd (snd (for_each_raw sm N D EP r)))"
  using raw_loop_end[of "(r, 0, replicate N None, replicate N None, [])" sm N D EP]
  by (simp add: for_each_raw_def case_prod_unfold)

lemma for_each_raw_at_end:
  "r_current r = r_end r \<Longrightarrow> for_each_raw sm N D EP r = (0, [], r)"
  by (simp add: for_each_raw_def for_each_raw_loop.simps[of sm N D EP])

lemma for_each_until_at_end:
  "r_current r = r_end r \<Longrightarrow> for_each_until sm N D EP cb u r = (0, [], u, r)"
  by (simp add: for_each_until_def for_each_until_loop.simps[of sm N D EP cb])

text \<open>
  Claim C9. The cursor persists across calls and nothing resets it: on a reader whose cursor
  is at the end of the range, each of \<open>for_each_raw\<close>, \<open>for_each\<close> and \<open>for_each_until\<close> makes no
  call to the callback, returns 0 and leaves the reader as it is. \<open>for_each_raw\<close> and
  \<open>for_each\<close> always return with the cursor at the end of the range (\<open>for_each_until\<close> does
  so unless the callback stopped it).
\<close>

theorem reader_one_shot:
  "(r_current r = r_end r \<longrightarrow>
      for_each_raw sm N D EP r = (0, [], r) \<and> for_each sm N D EP r = (0, [], r) \<and>
      for_each_until sm N D EP cb u r = (0, [], u, r)) \<and>
   (r_current r \<le> r_end r \<longrightarrow>
      r_current (snd (snd (for_each_raw sm' N' D' EP' r))) =
        r_end (snd (snd (for_each_raw sm' N' D' EP' r))) \<and>
      r_current (snd (snd (for_each sm' N' D' EP' r))) =
        r_end (snd (snd (for_each sm' N' D' EP' r))))"
proof (intro conjI impI)
  assume a: "r_current r = r_end r"
  show "for_each_raw sm N D EP r = (0, [], r)" by (rule for_each_raw_at_end[OF a])
  then show "for_each sm N D EP r = (0, [], r)" by (simp add: for_each_def)
  show "for_each_until sm N D EP cb u r = (0, [], u, r)" by (rule for_each_until_at_end[OF a])
next
  assume a: "r_current r \<le> r_end r"
  show "r_current (snd (snd (for_each_raw sm' N' D' EP' r))) =
        r_end (snd (snd (for_each_raw sm' N' D' EP' r)))" by (rule for_each_raw_end[OF a])
  then show "r_current (snd (snd (for_each sm' N' D' EP' r))) =
        r_end (snd (snd (for_each sm' N' D' EP' r)))"
    by (simp add: for_each_def case_prod_unfold)
qed

theorem reader_one_shot_witness:
  "fst (for_each_raw Scalar 1 (CHR '','') NoErrorCheck
      (Reader_init Scalar 1 (CHR '','') NoErrorCheck (Mapped (''x'' @ [CHR 0x0A] @ ''1'' @ [CHR 0x0A])) True)) = 1 \<and>
   fst (for_each_raw Scalar 1 (CHR '','') NoErrorCheck
      (snd (snd (for_each_raw Scalar 1 (CHR '','') NoErrorCheck
        (Reader_init Scalar 1 (CHR '','') NoErrorCheck (Mapped (''x'' @ [CHR 0x0A] @ ''1'' @ [CHR 0x0A])) True))))) = 0 \<and>
   fst (snd (for_each_raw Scalar 1 (CHR '','') NoErrorCheck
      (snd (snd (for_each_raw Scalar 1 (CHR '','') NoErrorCheck
        (Reader_init Scalar 1 (CHR '','') NoErrorCheck (Mapped (''x'' @ [CHR 0x0A] @ ''1'' @ [CHR 0x0A])) True)))))) = []"
proof -
  let ?R0 = "Reader_init Scalar 1 (CHR '','') NoErrorCheck (Mapped (''x'' @ [CHR 0x0A] @ ''1'' @ [CHR 0x0A])) True"
  let ?R1 = "snd (snd (for_each_raw Scalar 1 (CHR '','') NoErrorCheck ?R0))"
  have h: "r_current ?R0 \<le> r_end ?R0" by code_simp
  have one: "fst (for_each_raw Scalar 1 (CHR '','') NoErrorCheck ?R0) = 1" by code_simp
  have e: "r_current ?R1 = r_end ?R1"
    by (rule reader_one_shot[where r = ?R0 and sm' = Scalar and N' = 1 and D' = "CHR '',''"
          and EP' = NoErrorCheck, THEN conjunct2, THEN mp, OF h, THEN conjunct1])
  have "for_each_raw Scalar 1 (CHR '','') NoErrorCheck ?R1 = (0, [], ?R1)"
    by (rule reader_one_shot[where r = ?R1 and sm = Scalar and N = 1 and D = "CHR '',''"
          and EP = NoErrorCheck, THEN conjunct1, THEN mp, OF e, THEN conjunct1])
  with one show ?thesis by simp
qed

section \<open>Header access\<close>

lemma header_loop_length:
  "header_loop sm N D buf ee (ptr, col, names) = (p, c, names') \<Longrightarrow> length names' = length names"
proof (induction sm N D buf ee "(ptr, col, names)" arbitrary: ptr col names
    rule: header_loop.induct)
  case (1 sm N D buf ee ptr col names)
  show ?case
  proof (cases "col < N \<and> ptr < ee")
    case False
    have "header_loop sm N D buf ee (ptr, col, names) = (ptr, col, names)"
      by (subst header_loop.simps) (simp only: False if_False)
    with "1.prems" show ?thesis by simp
  next
    case True
    let ?ptr1 = "ptr + find_field_end sm buf ptr (ee - ptr) D"
    let ?names1 = "names[col := \<lparr>sv_data = Some ptr, sv_size = ?ptr1 - ptr\<rparr>]"
    let ?ptr2 = "if ?ptr1 < ee \<and> buf ! ?ptr1 = D then ?ptr1 + 1 else ?ptr1"
    have "header_loop sm N D buf ee (ptr, col, names) =
        header_loop sm N D buf ee (?ptr2, col + 1, ?names1)"
      using True by (subst header_loop.simps) (simp add: Let_def)
    with "1.prems" have run: "header_loop sm N D buf ee (?ptr2, col + 1, ?names1) = (p, c, names')"
      by simp
    from "1.hyps"[OF True refl refl refl refl refl refl run] show ?thesis by simp
  qed
qed

lemma header_loop_length_snd:
  "length (snd (snd (header_loop sm N D buf ee st))) = length (snd (snd st))"
proof -
  obtain ptr col names where st: "st = (ptr, col, names)" by (cases st) auto
  obtain p c names' where hl: "header_loop sm N D buf ee (ptr, col, names) = (p, c, names')"
    by (cases "header_loop sm N D buf ee (ptr, col, names)") auto
  from header_loop_length[OF hl] st hl show ?thesis by simp
qed

lemma parse_header_names:
  "length (r_column_names (parse_header sm N D EP r)) = length (r_column_names r)"
  unfolding parse_header_def Let_def
  by (simp add: case_prod_unfold header_loop_length_snd)

lemma Reader_init_names:
  "length (r_column_names (Reader_init sm N D EP f skip)) = N"
  unfolding Reader_init_def Let_def by (simp add: parse_header_names)

text \<open>
  Claim C10. \<open>column_name(idx)\<close> is total: for \<open>idx \<ge> N\<close> it returns the empty
  \<open>string_view\<close>, and for \<open>idx < N\<close> it returns the stored header slice of column \<open>idx\<close>, the
  index being within the header array, which has \<open>N\<close> entries in every constructed reader.
\<close>

theorem column_name_total:
  "(N \<le> idx \<longrightarrow> column_name N (Reader_init sm N D EP f skip) idx = string_view_default) \<and>
   (idx < N \<longrightarrow> idx < length (r_column_names (Reader_init sm N D EP f skip)) \<and>
      column_name N (Reader_init sm N D EP f skip) idx =
        r_column_names (Reader_init sm N D EP f skip) ! idx)"
  by (simp add: column_name_def Reader_init_names)

theorem column_name_total_witness:
  "column_name 2 (Reader_init Scalar 2 (CHR '','') NoErrorCheck (Mapped (''a,b'' @ [CHR 0x0A])) True) 5
     = string_view_default \<and>
   column_name 2 (Reader_init Scalar 2 (CHR '','') NoErrorCheck (Mapped (''a,b'' @ [CHR 0x0A])) True) 1
     = \<lparr>sv_data = Some 2, sv_size = 1\<rparr>"
proof -
  let ?R = "Reader_init Scalar 2 (CHR '','') NoErrorCheck (Mapped (''a,b'' @ [CHR 0x0A])) True"
  have a: "(2::nat) \<le> 5" and b: "(1::nat) < 2" by simp_all
  have c: "r_column_names ?R ! 1 = \<lparr>sv_data = Some 2, sv_size = 1\<rparr>" by code_simp
  have "column_name 2 ?R 5 = string_view_default"
    by (rule column_name_total[where N = 2 and idx = 5, THEN conjunct1, THEN mp, OF a])
  moreover have "column_name 2 ?R 1 = r_column_names ?R ! 1"
    by (rule column_name_total[where N = 2 and idx = 1, THEN conjunct2, THEN mp, OF b,
          THEN conjunct2])
  ultimately show ?thesis using c by simp
qed

end
